theory Spec2Isabelle
  imports Main "HOL-Library.Log_Nat" "HOL-Library.Sublist"
begin

section \<open>Strings of bytes\<close>

text \<open>
  A Go \<^verbatim>\<open>string\<close> is a sequence of bytes; it is modelled by \<^typ>\<open>string\<close>, whose
  characters are exactly the 256 byte values. \<open>of_char\<close> reads a byte as a number; byte
  values and runes are integers.
\<close>

abbreviation nl :: string where "nl \<equiv> [CHR 0x0A]"
abbreviation cr :: string where "cr \<equiv> [CHR 0x0D]"
abbreviation sq :: string where "sq \<equiv> [CHR 0x27]"

text \<open>\<^verbatim>\<open>strings.Join(a, sep)\<close>.\<close>

fun Join :: "string list \<Rightarrow> string \<Rightarrow> string" where
  "Join [] sep = []"
| "Join [x] sep = x"
| "Join (x # y # ys) sep = x @ sep @ Join (y # ys) sep"

text \<open>\<^verbatim>\<open>strings.Split(s, "\n")\<close>: the result always has at least one element.\<close>

fun SplitNl :: "string \<Rightarrow> string list" where
  "SplitNl [] = [[]]"
| "SplitNl (c # cs) =
     (if c = CHR 0x0A then [] # SplitNl cs
      else (case SplitNl cs of [] \<Rightarrow> [[c]] | l # ls \<Rightarrow> (c # l) # ls))"

subsection \<open>UTF-8 decoding, as \<^verbatim>\<open>unicode/utf8\<close> does it\<close>

definition RuneError :: int where "RuneError = 0xFFFD"

text \<open>
  \<^verbatim>\<open>utf8.DecodeRuneInString\<close>: the rune at the start of the string and its width in bytes.
  The tables \<^verbatim>\<open>first\<close> and \<^verbatim>\<open>acceptRanges\<close> of the library are written out as the
  comparisons they encode: lead bytes C2..DF start two bytes, E0..EF three, F0..F4 four;
  the second byte is restricted after E0, ED, F0 and F4. An ill-formed or truncated
  sequence decodes as \<open>(RuneError, 1)\<close>.
\<close>

fun DecodeRune :: "string \<Rightarrow> int \<times> nat" where
  "DecodeRune [] = (RuneError, 0)"
| "DecodeRune (c0 # cs) =
     (let s0 = (of_char c0 :: int) in
      if s0 < 0x80 then (s0, 1)
      else if s0 < 0xC2 \<or> 0xF4 < s0 then (RuneError, 1)
      else
        let sz = (if s0 < 0xE0 then 2 else if s0 < 0xF0 then 3 else (4::nat));
            lo = (if s0 = 0xE0 then 0xA0 else if s0 = 0xF0 then 0x90 else (0x80::int));
            hi = (if s0 = 0xED then 0x9F else if s0 = 0xF4 then 0x8F else (0xBF::int))
        in if length (c0 # cs) < sz then (RuneError, 1)
           else
             let s1 = (of_char (cs ! 0) :: int) in
             if s1 < lo \<or> hi < s1 then (RuneError, 1)
             else if sz \<le> 2 then ((s0 mod 32) * 64 + s1 mod 64, 2)
             else
               let s2 = (of_char (cs ! 1) :: int) in
               if s2 < 0x80 \<or> 0xBF < s2 then (RuneError, 1)
               else if sz \<le> 3 then ((s0 mod 16) * 4096 + (s1 mod 64) * 64 + s2 mod 64, 3)
               else
                 let s3 = (of_char (cs ! 2) :: int) in
                 if s3 < 0x80 \<or> 0xBF < s3 then (RuneError, 1)
                 else ((s0 mod 8) * 262144 + (s1 mod 64) * 4096 + (s2 mod 64) * 64
                         + s3 mod 64, 4))"

text \<open>
  \<^verbatim>\<open>utf8.DecodeLastRuneInString\<close>: it walks back over at most three earlier bytes to a
  byte that can start a rune, decodes from there, and accepts the rune only when it
  ends exactly at the end of the string.
\<close>

definition RuneStart :: "char \<Rightarrow> bool" where
  "RuneStart b = (\<not> (0x80 \<le> (of_char b :: int) \<and> (of_char b :: int) < 0xC0))"

function backToRuneStart :: "string \<Rightarrow> int \<Rightarrow> int \<Rightarrow> int" where
  "backToRuneStart s lo start =
     (if start \<ge> lo then
        (if RuneStart (s ! nat start) then start else backToRuneStart s lo (start - 1))
      else start)"
  by pat_completeness auto
termination
  by (relation "measure (\<lambda>(s, lo, start). nat (start - lo + 1))") auto

declare backToRuneStart.simps [simp del]

definition DecodeLastRune :: "string \<Rightarrow> int \<times> nat" where
  "DecodeLastRune s =
     (let n = int (length s) in
      if n = 0 then (RuneError, 0)
      else
        let r = (of_char (s ! nat (n - 1)) :: int) in
        if r < 0x80 then (r, 1)
        else
          let lo = max (n - 4) 0;
              start = max (backToRuneStart s lo (n - 2)) 0;
              (r', w) = DecodeRune (drop (nat start) s)
          in if start + int w \<noteq> n then (RuneError, 1) else (r', w))"

subsection \<open>\<^verbatim>\<open>strings.TrimSpace\<close>\<close>

text \<open>\<^verbatim>\<open>unicode.IsSpace\<close>: the Unicode White_Space property.\<close>

definition IsSpace :: "int \<Rightarrow> bool" where
  "IsSpace r =
     (r \<in> {0x09, 0x0A, 0x0B, 0x0C, 0x0D, 0x20, 0x85, 0xA0, 0x1680, 0x2028, 0x2029,
            0x202F, 0x205F, 0x3000}
      \<or> (0x2000 \<le> r \<and> r \<le> 0x200A))"

fun TrimLeftSpace :: "string \<Rightarrow> string" where
  "TrimLeftSpace [] = []"
| "TrimLeftSpace (c # cs) =
     (case DecodeRune (c # cs) of (r, w) \<Rightarrow>
        if IsSpace r then TrimLeftSpace (drop (w - 1) cs) else c # cs)"

function TrimRightSpace :: "string \<Rightarrow> string" where
  "TrimRightSpace s =
     (if s = [] then []
      else (case DecodeLastRune s of (r, w) \<Rightarrow>
        if IsSpace r \<and> 0 < w then TrimRightSpace (take (length s - w) s) else s))"
  by pat_completeness auto
termination
  by (relation "measure length") auto

declare TrimRightSpace.simps [simp del]

definition TrimSpace :: "string \<Rightarrow> string" where
  "TrimSpace s = TrimRightSpace (TrimLeftSpace s)"

section \<open>The escaper\<close>

text \<open>
  \<^verbatim>\<open>specialCharsPattern = \n|\r|\[|\]|\||'\<close> matches one byte at a time; every match is
  replaced by \<open>specEscape\<close> of the matched text.
\<close>

definition specEscape :: "string \<Rightarrow> string" where
  "specEscape inp =
     (if inp = nl then ''|n'' else if inp = cr then ''|r'' else ''|'' @ inp)"

definition specialChar :: "char \<Rightarrow> bool" where
  "specialChar c =
     (c = CHR 0x0A \<or> c = CHR 0x0D \<or> c = CHR ''['' \<or> c = CHR '']'' \<or> c = CHR ''|''
      \<or> c = CHR 0x27)"

definition replaceSpecial :: "string \<Rightarrow> string" where
  "replaceSpecial s = concat (map (\<lambda>c. if specialChar c then specEscape [c] else [c]) s)"

text \<open>\<^verbatim>\<open>fmt.Sprintf("%04x", b)\<close> for a number below 65536 (a byte always is).\<close>

definition hexDigit :: "int \<Rightarrow> char" where
  "hexDigit d = (if d < 10 then char_of (48 + d) else char_of (87 + d))"

definition hex4 :: "int \<Rightarrow> string" where
  "hex4 n = [hexDigit (n div 4096 mod 16), hexDigit (n div 256 mod 16),
             hexDigit (n div 16 mod 16), hexDigit (n mod 16)]"

definition unicodeEscape :: "string \<Rightarrow> string" where
  "unicodeEscape inp = ''|0x'' @ hex4 (of_char (hd inp))"

text \<open>
  \<^verbatim>\<open>nonAsciiCharsPattern = [\x00-\x20]|[\x80-\x{ffff}]\<close> is a class of runes. The
  regular-expression engine reads the text rune by rune (\<open>DecodeRune\<close>), so a match is
  the whole encoding of a rune in the class, or a single ill-formed byte (which reads as
  \<open>RuneError = U+FFFD\<close>, a member of the class).
\<close>

definition nonAsciiChar :: "int \<Rightarrow> bool" where
  "nonAsciiChar r = (r \<le> 0x20 \<or> (0x80 \<le> r \<and> r \<le> 0xFFFF))"

fun replaceNonAscii :: "string \<Rightarrow> string" where
  "replaceNonAscii [] = []"
| "replaceNonAscii (c # cs) =
     (case DecodeRune (c # cs) of (r, w) \<Rightarrow>
        (if nonAsciiChar r then unicodeEscape (take w (c # cs)) else take w (c # cs))
        @ replaceNonAscii (drop (w - 1) cs))"

definition escape :: "string \<Rightarrow> string" where
  "escape input = replaceNonAscii (replaceSpecial input)"

section \<open>Floating-point durations\<close>

text \<open>
  \<^verbatim>\<open>durationSec\<close> is a \<^verbatim>\<open>float64\<close>. The values this program can produce are zero, the
  positive finite values and positive infinity; a finite value is modelled by the
  rational number it denotes. \<open>roundFloat p emin emax\<close> is IEEE 754 rounding to nearest,
  ties to even, into the binary format with \<open>p\<close> significand bits and exponents
  \<open>emin..emax\<close> (binary32: 24, -126, 127; binary64: 53, -1022, 1023), for a
  non-negative rational.
\<close>

datatype go_float = Finite rat | PosInf

definition roundHalfEven :: "rat \<Rightarrow> int" where
  "roundHalfEven x =
     (let f = \<lfloor>x\<rfloor>; d = x - of_int f in
      if d < 1 / 2 then f else if 1 / 2 < d then f + 1 else if even f then f else f + 1)"

definition floorLog2 :: "rat \<Rightarrow> int" where
  "floorLog2 x =
     (let (a, b) = quotient_of x; d = bitlen a - bitlen b in
      if 2 powi d \<le> x then d else d - 1)"

definition roundFloat :: "nat \<Rightarrow> int \<Rightarrow> int \<Rightarrow> rat \<Rightarrow> go_float" where
  "roundFloat p emin emax x =
     (if x = 0 then Finite 0
      else
        let e = max (floorLog2 x) emin;
            q = 2 powi (e - int p + 1);
            y = of_int (roundHalfEven (x / q)) * q
        in if 2 powi (emax + 1) \<le> y then PosInf else Finite y)"

definition float32 :: "rat \<Rightarrow> go_float" where
  "float32 x = roundFloat 24 (- 126) 127 x"

definition float64 :: "rat \<Rightarrow> go_float" where
  "float64 x = roundFloat 53 (- 1022) 1023 x"

text \<open>
  \<^verbatim>\<open>strconv.ParseFloat(s, 32)\<close>, for the strings the duration group \<^verbatim>\<open>[\d.]+\<close> can hand
  over (digits and dots only: no sign, exponent, hexadecimal or special form occurs).
  The literal is well-formed when it has at most one dot and at least one digit; it is
  then rounded to the nearest binary32 value. The second component tells whether the
  library returns an error: a syntax error comes with the value 0, a range error (the
  rounded value overflows binary32) with infinity.
\<close>

definition isDigit :: "char \<Rightarrow> bool" where
  "isDigit c = (48 \<le> (of_char c :: int) \<and> (of_char c :: int) \<le> 57)"

definition digitsVal :: "string \<Rightarrow> int" where
  "digitsVal ds = foldl (\<lambda>a c. 10 * a + (of_char c - 48)) 0 ds"

definition ParseFloat32 :: "string \<Rightarrow> go_float \<times> bool" where
  "ParseFloat32 s =
     (let ip = takeWhile isDigit s;
          r = dropWhile isDigit s;
          dot = (r \<noteq> [] \<and> hd r = CHR ''.'');
          fp = (if dot then takeWhile isDigit (tl r) else []);
          rest = (if dot then dropWhile isDigit (tl r) else r)
      in if rest \<noteq> [] \<or> (ip = [] \<and> fp = []) then (Finite 0, True)
         else (case float32 (of_int (digitsVal (ip @ fp)) / 10 ^ length fp) of
                 PosInf \<Rightarrow> (PosInf, True)
               | Finite v \<Rightarrow> (Finite v, False)))"

text \<open>The \<^verbatim>\<open>float64\<close> product \<^verbatim>\<open>x * 1000\<close>.\<close>

definition mul1000 :: "go_float \<Rightarrow> go_float" where
  "mul1000 x = (case x of Finite v \<Rightarrow> float64 (v * 1000) | PosInf \<Rightarrow> PosInf)"

text \<open>
  The conversion \<^verbatim>\<open>int(f)\<close> discards the fraction. \<^verbatim>\<open>int\<close> is taken to be 64 bits wide.
  For a value outside its range (and for infinity) the language leaves the result to the
  implementation: the parameter \<open>ov\<close> stands for that result.
\<close>

definition toInt :: "int \<Rightarrow> go_float \<Rightarrow> int" where
  "toInt ov x =
     (case x of
        Finite v \<Rightarrow>
          (let t = (if 0 \<le> v then \<lfloor>v\<rfloor> else \<lceil>v\<rceil>) in
           if - (2 ^ 63) \<le> t \<and> t < 2 ^ 63 then t else ov)
      | PosInf \<Rightarrow> ov)"

text \<open>\<^verbatim>\<open>%d\<close>.\<close>

function showDigits :: "int \<Rightarrow> string" where
  "showDigits n =
     (if n < 10 then [char_of (48 + n)]
      else showDigits (n div 10) @ [char_of (48 + n mod 10)])"
  by pat_completeness auto
termination
  by (relation "measure nat") auto

definition showInt :: "int \<Rightarrow> string" where
  "showInt i = (if i < 0 then ''-'' @ showDigits (- i) else showDigits i)"

section \<open>Test results and their report\<close>

record testResult =
  name :: string
  status :: string
  "output" :: "string list"
  durationSec :: go_float

text \<open>\<^verbatim>\<open>&testResult{name: n}\<close>: the other fields have their zero values.\<close>

definition newTestResult :: "string \<Rightarrow> testResult" where
  "newTestResult n = \<lparr>name = n, status = [], output = [], durationSec = Finite 0\<rparr>"

subsection \<open>The failure message\<close>

text \<open>The class \<^verbatim>\<open>\s\<close> of the regular expressions: tab, newline, form feed, return, space.\<close>

definition reSpace :: "char \<Rightarrow> bool" where
  "reSpace c = (c = CHR 0x09 \<or> c = CHR 0x0A \<or> c = CHR 0x0C \<or> c = CHR 0x0D \<or> c = CHR 0x20)"

text \<open>
  \<^verbatim>\<open>(?m)Error:\s+(.+)$\<close> at one position, after the literal \<^verbatim>\<open>Error:\<close>. The greedy \<^verbatim>\<open>\s+\<close>
  first takes the whole run of white space and gives back one character at a time while
  \<^verbatim>\<open>(.+)\<close> cannot start: \<open>tryWs rest k\<close> tries the runs of length \<open>k, k - 1, .., 1\<close>. The
  dot matches everything but a newline and, being greedy, runs to the end of the line,
  where \<^verbatim>\<open>$\<close> holds.
\<close>

fun tryWs :: "string \<Rightarrow> nat \<Rightarrow> string option" where
  "tryWs rest 0 = None"
| "tryWs rest (Suc k) =
     (if Suc k < length rest \<and> rest ! Suc k \<noteq> CHR 0x0A
      then Some (take (Suc k) rest @ takeWhile (\<lambda>c. c \<noteq> CHR 0x0A) (drop (Suc k) rest))
      else tryWs rest k)"

definition matchErrorAt :: "string \<Rightarrow> string option" where
  "matchErrorAt s =
     (if prefix ''Error:'' s
      then (case tryWs (drop 6 s) (length (takeWhile reSpace (drop 6 s))) of
              None \<Rightarrow> None
            | Some m \<Rightarrow> Some (''Error:'' @ m))
      else None)"

text \<open>\<^verbatim>\<open>FindString\<close>: the leftmost match, or the empty string when there is none.\<close>

fun FindErrorString :: "string \<Rightarrow> string" where
  "FindErrorString [] = []"
| "FindErrorString (c # cs) =
     (case matchErrorAt (c # cs) of Some m \<Rightarrow> m | None \<Rightarrow> FindErrorString cs)"

definition failureMessage :: "string \<Rightarrow> string" where
  "failureMessage testOutput =
     (let message = FindErrorString testOutput in
      if length message = 0 then TrimSpace (hd (SplitNl testOutput)) else message)"

subsection \<open>\<^verbatim>\<open>flush\<close> and \<^verbatim>\<open>flushPackage\<close>: what they print\<close>

definition testStartedLine :: "string \<Rightarrow> string" where
  "testStartedLine n =
     ''##teamcity[testStarted name='' @ sq @ escape n @ sq @ '' captureStandardOutput='' @ sq
       @ ''true'' @ sq @ '']'' @ nl"

definition testFailedLine :: "string \<Rightarrow> string \<Rightarrow> string" where
  "testFailedLine n message =
     ''##teamcity[testFailed name='' @ sq @ escape n @ sq @ '' message='' @ sq
       @ escape message @ sq @ '']'' @ nl"

definition testIgnoredLine :: "string \<Rightarrow> string" where
  "testIgnoredLine n = ''##teamcity[testIgnored name='' @ sq @ escape n @ sq @ '']'' @ nl"

definition testFinishedLine :: "string \<Rightarrow> int \<Rightarrow> string" where
  "testFinishedLine n ms =
     ''##teamcity[testFinished name='' @ sq @ escape n @ sq @ '' duration='' @ sq
       @ showInt ms @ sq @ '']'' @ nl"

definition testSuiteStartedLine :: "string \<Rightarrow> string" where
  "testSuiteStartedLine n = ''##teamcity[testSuiteStarted name='' @ sq @ escape n @ sq @ '']'' @ nl"

definition testSuiteFinishedLine :: "string \<Rightarrow> string" where
  "testSuiteFinishedLine n = ''##teamcity[testSuiteFinished name='' @ sq @ escape n @ sq @ '']'' @ nl"

text \<open>The bytes \<^verbatim>\<open>test.flush()\<close> writes to standard output.\<close>

definition flush :: "int \<Rightarrow> testResult \<Rightarrow> string" where
  "flush ov test =
     testStartedLine (name test)
     @ (let testOutput = Join (output test) nl in
        (if length (output test) > 0 then testOutput @ nl else [])
        @ (if status test = ''PASS'' then []
           else if status test = ''FAIL''
             then testFailedLine (name test) (failureMessage testOutput)
           else if status test = ''SKIP'' then testIgnoredLine (name test)
           else []))
     @ testFinishedLine (name test) (toInt ov (mul1000 (durationSec test)))"

text \<open>The loop of \<^verbatim>\<open>flushPackage\<close> over the results, in slice order.\<close>

fun flushAll :: "int \<Rightarrow> testResult list \<Rightarrow> string" where
  "flushAll ov [] = []"
| "flushAll ov (test # results) = flush ov test @ flushAll ov results"

definition flushPackage :: "int \<Rightarrow> string \<Rightarrow> testResult list \<Rightarrow> string" where
  "flushPackage ov n results =
     testSuiteStartedLine n @ flushAll ov results @ testSuiteFinishedLine n"

text \<open>
  \<^verbatim>\<open>findTest\<close> returns a pointer to the first result with the name, or \<^verbatim>\<open>nil\<close>. The
  results live in the slice \<^verbatim>\<open>packageTestBuffer\<close> only, so the pointer is modelled by the
  position of the result in that slice.
\<close>

fun findTest :: "string \<Rightarrow> testResult list \<Rightarrow> nat option" where
  "findTest n [] = None"
| "findTest n (test # results) =
     (if name test = n then Some 0
      else (case findTest n results of None \<Rightarrow> None | Some i \<Rightarrow> Some (Suc i)))"

section \<open>The line patterns\<close>

text \<open>
  \<^verbatim>\<open>\s+(\S+)\<close> at the start of a string: a non-empty run of white space, then a non-empty
  run of other characters. Both runs are greedy and neither can give a character to the
  other, so they are the maximal runs. The result is the group and the text after it.
\<close>

definition spacesThenWord :: "string \<Rightarrow> (string \<times> string) option" where
  "spacesThenWord s =
     (let r = dropWhile reSpace s;
          w = takeWhile (\<lambda>c. \<not> reSpace c) r
      in if takeWhile reSpace s \<noteq> [] \<and> w \<noteq> [] then Some (w, dropWhile (\<lambda>c. \<not> reSpace c) r)
         else None)"

text \<open>\<^verbatim>\<open>cruftPattern = ^(PASS|FAIL)$\<close>, \<^verbatim>\<open>MatchString\<close>.\<close>

definition cruftPattern :: "string \<Rightarrow> bool" where
  "cruftPattern input = (input = ''PASS'' \<or> input = ''FAIL'')"

text \<open>\<^verbatim>\<open>testRunPattern = ^=== RUN\s+(\S+)\<close>; the result is group 1.\<close>

definition testRunPattern :: "string \<Rightarrow> string option" where
  "testRunPattern input =
     (if prefix ''=== RUN'' input
      then (case spacesThenWord (drop 7 input) of None \<Rightarrow> None | Some (w, r) \<Rightarrow> Some w)
      else None)"

text \<open>
  \<^verbatim>\<open>testFinishPattern = ^--- (PASS|FAIL|SKIP):\s+(\S+) \(([\d.]+)s\)\<close>; the result is the
  groups 1, 2 and 3.
\<close>

definition digitOrDot :: "char \<Rightarrow> bool" where
  "digitOrDot c = (isDigit c \<or> c = CHR ''.'')"

definition testFinishPattern :: "string \<Rightarrow> (string \<times> string \<times> string) option" where
  "testFinishPattern input =
     (if prefix ''--- '' input
      then
        let st = take 4 (drop 4 input) in
        if (st = ''PASS'' \<or> st = ''FAIL'' \<or> st = ''SKIP'') \<and> prefix '':'' (drop 8 input)
        then (case spacesThenWord (drop 9 input) of
                None \<Rightarrow> None
              | Some (w, r) \<Rightarrow>
                  if prefix '' ('' r
                  then
                    let d = takeWhile digitOrDot (drop 2 r) in
                    if d \<noteq> [] \<and> prefix ''s)'' (dropWhile digitOrDot (drop 2 r))
                    then Some (st, w, d) else None
                  else None)
        else None
      else None)"

text \<open>\<^verbatim>\<open>packageFinishPattern = ^(ok|FAIL|\?)\s+(\S+)\<close>; the result is group 2.\<close>

definition packageFinishPattern :: "string \<Rightarrow> string option" where
  "packageFinishPattern input =
     (let after =
        (if prefix ''ok'' input then Some (drop 2 input)
         else if prefix ''FAIL'' input then Some (drop 4 input)
         else if prefix ''?'' input then Some (drop 1 input)
         else None)
      in case after of
           None \<Rightarrow> None
         | Some r \<Rightarrow> (case spacesThenWord r of None \<Rightarrow> None | Some (w, r') \<Rightarrow> Some w))"

section \<open>The main loop\<close>

text \<open>
  The branch of the \<^verbatim>\<open>if\<close> chain of \<^verbatim>\<open>main\<close> that a line takes, with the groups the
  branch uses. The last two branches, which differ in \<^verbatim>\<open>capturingTest\<close> only, are the
  event \<open>Unclassified\<close>.
\<close>

datatype event =
    Cruft
  | TestStarted string
  | TestFinished string string string
  | PackageFinished string
  | Unclassified string

definition classify :: "string \<Rightarrow> event" where
  "classify input =
     (if cruftPattern input then Cruft
      else (case testRunPattern input of
        Some n \<Rightarrow> TestStarted n
      | None \<Rightarrow> (case testFinishPattern input of
          Some (st, n, d) \<Rightarrow> TestFinished st n d
        | None \<Rightarrow> (case packageFinishPattern input of
            Some n \<Rightarrow> PackageFinished n
          | None \<Rightarrow> Unclassified input))))"

text \<open>
  The variables of \<^verbatim>\<open>main\<close>, and what has been written to standard output so far.
  \<^verbatim>\<open>capturingTest\<close> points into \<^verbatim>\<open>packageTestBuffer\<close>: it is a position there.
\<close>

record state =
  packageTestBuffer :: "testResult list"
  capturingTest :: "nat option"
  stdout :: string

definition initial :: state where
  "initial = \<lparr>packageTestBuffer = [], capturingTest = None, stdout = []\<rparr>"

datatype error = Panic string

definition panicMessage :: string where
  "panicMessage = ''Run `go test` with -v''"

text \<open>The body of the loop for one line, by the branch taken.\<close>

fun dispatch :: "int \<Rightarrow> state \<Rightarrow> event \<Rightarrow> error + state" where
  "dispatch ov s Cruft = Inr s"
| "dispatch ov s (TestStarted n) =
     Inr (s\<lparr>capturingTest := None,
            packageTestBuffer := packageTestBuffer s @ [newTestResult n]\<rparr>)"
| "dispatch ov s (TestFinished st n d) =
     (case findTest n (packageTestBuffer s) of
        None \<Rightarrow> Inl (Panic panicMessage)
      | Some i \<Rightarrow>
          Inr (s\<lparr>packageTestBuffer :=
                   (packageTestBuffer s)
                     [i := (packageTestBuffer s ! i)
                             \<lparr>status := st, durationSec := fst (ParseFloat32 d)\<rparr>],
                 capturingTest := (if st = ''FAIL'' then Some i else capturingTest s)\<rparr>))"
| "dispatch ov s (PackageFinished n) =
     Inr (s\<lparr>capturingTest := None,
            stdout := stdout s @ flushPackage ov n (packageTestBuffer s),
            packageTestBuffer := []\<rparr>)"
| "dispatch ov s (Unclassified input) =
     (case capturingTest s of
        Some i \<Rightarrow>
          Inr (s\<lparr>packageTestBuffer :=
                   (packageTestBuffer s)
                     [i := (packageTestBuffer s ! i)
                             \<lparr>output := output (packageTestBuffer s ! i) @ [input]\<rparr>]\<rparr>)
      | None \<Rightarrow> Inr (s\<lparr>stdout := stdout s @ input @ nl\<rparr>))"

definition step :: "int \<Rightarrow> state \<Rightarrow> string \<Rightarrow> error + state" where
  "step ov s input = dispatch ov s (classify input)"

text \<open>
  The loop over the lines the scanner delivers. A panic ends the program: the lines
  after it are not read.
\<close>

fun run :: "int \<Rightarrow> state \<Rightarrow> string list \<Rightarrow> error + state" where
  "run ov s [] = Inr s"
| "run ov s (input # rest) =
     (case step ov s input of Inl e \<Rightarrow> Inl e | Inr s' \<Rightarrow> run ov s' rest)"

definition main :: "int \<Rightarrow> string list \<Rightarrow> error + state" where
  "main ov inputs = run ov initial inputs"

section \<open>Notions used to state the properties\<close>

text \<open>
  The names of the tests started since the last package-finish line, in the order of
  their start lines, after a list of events; \<open>acc\<close> holds the names so far. Only the
  start and package-finish events are read: the order in which finish lines arrive
  cannot change the result.
\<close>

fun startOrder :: "string list \<Rightarrow> event list \<Rightarrow> string list" where
  "startOrder acc [] = acc"
| "startOrder acc (TestStarted n # es) = startOrder (acc @ [n]) es"
| "startOrder acc (PackageFinished n # es) = startOrder [] es"
| "startOrder acc (e # es) = startOrder acc es"

text \<open>
  An invariant of the loop: a result whose status is still empty has no output and
  duration zero, and \<^verbatim>\<open>capturingTest\<close> points at a result of the buffer whose status
  has been set.
\<close>

definition consistent :: "state \<Rightarrow> bool" where
  "consistent s =
     ((\<forall>t \<in> set (packageTestBuffer s).
         status t = [] \<longrightarrow> output t = [] \<and> durationSec t = Finite 0)
      \<and> (\<forall>i. capturingTest s = Some i \<longrightarrow>
            i < length (packageTestBuffer s) \<and> status (packageTestBuffer s ! i) \<noteq> []))"

text \<open>
  What it means for the pattern \<^verbatim>\<open>(?m)Error:\s+(.+)$\<close> to match: the matched text \<open>m\<close>
  is \<^verbatim>\<open>Error:\<close>, a non-empty run of white space and a non-empty rest without a
  newline, and the match ends at the end of a line. \<open>occursAt s k m\<close>: there is such
  a match \<open>m\<close> at offset \<open>k\<close> of \<open>s\<close>.
\<close>

definition errorMatch :: "string \<Rightarrow> bool" where
  "errorMatch m =
     (\<exists>ws body. m = ''Error:'' @ ws @ body \<and> ws \<noteq> [] \<and> (\<forall>c \<in> set ws. reSpace c)
        \<and> body \<noteq> [] \<and> CHR 0x0A \<notin> set body)"

definition lineEnd :: "string \<Rightarrow> bool" where
  "lineEnd post = (post = [] \<or> hd post = CHR 0x0A)"

definition occursAt :: "string \<Rightarrow> nat \<Rightarrow> string \<Rightarrow> bool" where
  "occursAt s k m = (k \<le> length s \<and> (\<exists>post. drop k s = m @ post \<and> errorMatch m \<and> lineEnd post))"

text \<open>
  The duration literals. A string of digits and dots is malformed when it has more than
  one dot or no digit; otherwise it is a decimal numeral, whose value is its digits read
  as a number, divided by ten to the number of digits after the dot.
\<close>

definition malformed :: "string \<Rightarrow> bool" where
  "malformed d = (1 < length (filter (\<lambda>c. c = CHR ''.'') d) \<or> filter isDigit d = [])"

definition literalValue :: "string \<Rightarrow> rat" where
  "literalValue d =
     of_int (digitsVal (filter isDigit d))
       / 10 ^ length (filter isDigit (dropWhile (\<lambda>c. c \<noteq> CHR ''.'') d))"

text \<open>The loop of \<^verbatim>\<open>main\<close> over lines that are already classified.\<close>

fun runEvents :: "int \<Rightarrow> state \<Rightarrow> event list \<Rightarrow> error + state" where
  "runEvents ov s [] = Inr s"
| "runEvents ov s (e # es) =
     (case dispatch ov s e of Inl err \<Rightarrow> Inl err | Inr s' \<Rightarrow> runEvents ov s' es)"

text \<open>
  A test is given by its name, its status and its duration literal. \<open>finished\<close> is its
  finish event, \<open>testBlock\<close> the block of lines expected for it in a report when it has no
  captured output: the duration attribute is \<^verbatim>\<open>int(x * 1000)\<close> for the binary32 value
  \<open>x\<close> nearest to the literal. \<open>applyFinish fs\<close> updates a result by the finish event for
  its name in \<open>fs\<close>, if there is one.
\<close>

definition finished :: "string \<times> string \<times> string \<Rightarrow> event" where
  "finished t = (case t of (n, st, d) \<Rightarrow> TestFinished st n d)"

definition testBlock :: "int \<Rightarrow> string \<times> string \<times> string \<Rightarrow> string" where
  "testBlock ov t =
     (case t of (n, st, d) \<Rightarrow>
        testStartedLine n
        @ (if st = ''FAIL'' then testFailedLine n []
           else if st = ''SKIP'' then testIgnoredLine n else [])
        @ testFinishedLine n (toInt ov (mul1000 (float32 (literalValue d)))))"

definition applyFinish :: "(string \<times> string \<times> string) list \<Rightarrow> testResult \<Rightarrow> testResult" where
  "applyFinish fs t =
     (case map_of fs (name t) of
        None \<Rightarrow> t
      | Some (st, d) \<Rightarrow> t\<lparr>status := st, durationSec := fst (ParseFloat32 d)\<rparr>)"

text \<open>
  Characters. A character is a code point \<open>r\<close> that UTF-8 can encode (\<open>validRune\<close>: up
  to U+10FFFF, no surrogate); \<open>EncodeRune r\<close> is its encoding. \<open>escapeRune r\<close> is what
  the escaper is expected to make of the character: the two-character escapes of the
  six special characters; \<^verbatim>\<open>|0x\<close> and four hexadecimal digits of the first byte of the
  encoding for the other code points up to U+0020 and from U+0080 to U+FFFF; the
  encoding itself for all others.
\<close>

definition EncodeRune :: "int \<Rightarrow> string" where
  "EncodeRune r =
     (if r < 0x80 then [char_of r]
      else if r < 0x800 then [char_of (0xC0 + r div 64), char_of (0x80 + r mod 64)]
      else if r < 0x10000
        then [char_of (0xE0 + r div 4096), char_of (0x80 + r div 64 mod 64),
              char_of (0x80 + r mod 64)]
      else [char_of (0xF0 + r div 262144), char_of (0x80 + r div 4096 mod 64),
            char_of (0x80 + r div 64 mod 64), char_of (0x80 + r mod 64)])"

definition validRune :: "int \<Rightarrow> bool" where
  "validRune r = (0 \<le> r \<and> r \<le> 0x10FFFF \<and> \<not> (0xD800 \<le> r \<and> r \<le> 0xDFFF))"

definition escapeRune :: "int \<Rightarrow> string" where
  "escapeRune r =
     (if r = 0x0A then ''|n''
      else if r = 0x0D then ''|r''
      else if r = 0x5B \<or> r = 0x5D \<or> r = 0x7C \<or> r = 0x27 then ''|'' @ EncodeRune r
      else if r \<le> 0x20 \<or> (0x80 \<le> r \<and> r \<le> 0xFFFF)
        then ''|0x'' @ hex4 (of_char (hd (EncodeRune r)))
      else EncodeRune r)"

text \<open>
  Any string, well-formed or not, read as the library reads it: \<open>Chars s\<close> is the
  sequence of the characters of \<open>s\<close>, each with its code point and the bytes it occupies
  in \<open>s\<close>. A character is either well-formed (a valid code point with its encoding) or
  a single byte that belongs to no well-formed encoding, read as U+FFFD.
  \<open>escapeChar\<close> is what the escaper is expected to make of such a character; it is
  \<open>escapeRune\<close> with the bytes found in the string in place of the encoding.
\<close>

fun Chars :: "string \<Rightarrow> (int \<times> string) list" where
  "Chars [] = []"
| "Chars (c # cs) =
     (case DecodeRune (c # cs) of (r, w) \<Rightarrow> (r, take w (c # cs)) # Chars (drop (w - 1) cs))"

definition escapeChar :: "int \<times> string \<Rightarrow> string" where
  "escapeChar ch =
     (case ch of (r, bs) \<Rightarrow>
        if r = 0x0A then ''|n''
        else if r = 0x0D then ''|r''
        else if r = 0x5B \<or> r = 0x5D \<or> r = 0x7C \<or> r = 0x27 then ''|'' @ bs
        else if r \<le> 0x20 \<or> (0x80 \<le> r \<and> r \<le> 0xFFFF) then ''|0x'' @ hex4 (of_char (hd bs))
        else bs)"

definition wellFormedChar :: "int \<times> string \<Rightarrow> bool" where
  "wellFormedChar ch = (case ch of (r, bs) \<Rightarrow> validRune r \<and> bs = EncodeRune r)"

definition illFormedByte :: "int \<times> string \<Rightarrow> bool" where
  "illFormedByte ch =
     (case ch of (r, bs) \<Rightarrow> r = RuneError \<and> length bs = 1 \<and> 0x80 \<le> (of_char (hd bs) :: int))"

section \<open>Properties\<close>

subsection \<open>Auxiliary facts\<close>

lemma flushAll_concat: "flushAll ov results = concat (map (flush ov) results)"
  by (induction results) simp_all

lemma findTest_Some:
  "findTest n results = Some i \<Longrightarrow>
     i < length results \<and> name (results ! i) = n \<and> (\<forall>j<i. name (results ! j) \<noteq> n)"
proof (induction results arbitrary: i)
  case Nil
  then show ?case by simp
next
  case (Cons t ts)
  show ?case
  proof (cases "name t = n")
    case True
    with Cons.prems show ?thesis by simp
  next
    case False
    with Cons.prems obtain k where k: "findTest n ts = Some k" "i = Suc k"
      by (auto split: option.splits)
    from Cons.IH [OF k(1)] False k(2) show ?thesis
      by (auto simp: nth_Cons split: nat.splits)
  qed
qed

lemma findTest_None: "findTest n results = None \<longleftrightarrow> n \<notin> name ` set results"
  by (induction results) (auto split: option.splits)

subsection \<open>A package without tests\<close>

text \<open>
  C9: when a package-finish line arrives while the package buffer is empty, the program
  prints the suite-started line immediately followed by the suite-finished line for that
  package name, with no test block in between, and it does not fail.
\<close>

theorem empty_package_flush:
  assumes "packageTestBuffer s = []" and "classify input = PackageFinished n"
  shows "step ov s input =
           Inr \<lparr>packageTestBuffer = [], capturingTest = None,
                stdout = stdout s
                  @ ''##teamcity[testSuiteStarted name='' @ sq @ escape n @ sq @ '']'' @ nl
                  @ ''##teamcity[testSuiteFinished name='' @ sq @ escape n @ sq @ '']'' @ nl\<rparr>"
  using assms
  by (simp add: step_def flushPackage_def testSuiteStartedLine_def testSuiteFinishedLine_def)

theorem empty_package_flush_witness:
  "packageTestBuffer initial = [] \<and> classify ''ok  pkg 0.03s'' = PackageFinished ''pkg'' \<and>
   step 0 initial ''ok  pkg 0.03s'' =
     Inr \<lparr>packageTestBuffer = [], capturingTest = None,
          stdout = ''##teamcity[testSuiteStarted name='' @ sq @ ''pkg'' @ sq @ '']'' @ nl
                  @ ''##teamcity[testSuiteFinished name='' @ sq @ ''pkg'' @ sq @ '']'' @ nl\<rparr>"
proof -
  have b: "packageTestBuffer initial = []" by (simp add: initial_def)
  have c: "classify ''ok  pkg 0.03s'' = PackageFinished ''pkg''" by code_simp
  have e: "escape ''pkg'' = ''pkg''" by code_simp
  have o: "stdout initial = []" by (simp add: initial_def)
  from empty_package_flush [OF b c, of 0] b c e o show ?thesis by simp
qed

subsection \<open>The classifier and the loop invariant\<close>

lemma classify_TestFinished:
  "classify input = TestFinished st n d \<Longrightarrow> st = ''PASS'' \<or> st = ''FAIL'' \<or> st = ''SKIP''"
  unfolding classify_def testFinishPattern_def Let_def
  by (auto split: if_splits option.splits prod.splits)

lemma classify_Unclassified: "classify input = Unclassified l \<Longrightarrow> l = input"
  unfolding classify_def
  by (auto split: if_splits option.splits prod.splits)

lemma map_update_same: "(map f xs)[i := f (xs ! i)] = map f xs"
proof (cases "i < length xs")
  case True
  then have "f (xs ! i) = map f xs ! i" by simp
  then show ?thesis by (simp only: list_update_id)
next
  case False
  then show ?thesis by (simp add: list_update_beyond)
qed

lemma dispatch_names:
  "dispatch ov s e = Inr s' \<Longrightarrow>
     map name (packageTestBuffer s') = startOrder (map name (packageTestBuffer s)) [e]"
proof (cases e)
  case (TestFinished st n d)
  assume "dispatch ov s e = Inr s'"
  with TestFinished obtain i where
    "s' = s\<lparr>packageTestBuffer :=
              (packageTestBuffer s)
                [i := (packageTestBuffer s ! i)\<lparr>status := st, durationSec := fst (ParseFloat32 d)\<rparr>],
            capturingTest := (if st = ''FAIL'' then Some i else capturingTest s)\<rparr>"
    by (auto split: option.splits)
  with TestFinished show ?thesis
    by (simp add: map_update map_update_same)
next
  case (Unclassified l)
  assume "dispatch ov s e = Inr s'"
  with Unclassified show ?thesis
    by (auto split: option.splits simp: map_update map_update_same)
qed (auto simp: newTestResult_def)

lemma startOrder_append:
  "startOrder acc (es @ es') = startOrder (startOrder acc es) es'"
  by (induction acc es rule: startOrder.induct) simp_all

lemma run_names:
  "run ov s inputs = Inr s' \<Longrightarrow>
     map name (packageTestBuffer s') = startOrder (map name (packageTestBuffer s)) (map classify inputs)"
proof (induction inputs arbitrary: s)
  case Nil
  then show ?case by simp
next
  case (Cons input rest)
  from Cons.prems obtain s1 where s1: "step ov s input = Inr s1" "run ov s1 rest = Inr s'"
    by (auto split: sum.splits)
  from dispatch_names [of ov s "classify input" s1] s1(1)
  have "map name (packageTestBuffer s1) = startOrder (map name (packageTestBuffer s)) [classify input]"
    by (simp add: step_def)
  with Cons.IH [OF s1(2)] startOrder_append [of "map name (packageTestBuffer s)" "[classify input]" "map classify rest"]
  show ?case by simp
qed

lemma dispatch_consistent:
  assumes "consistent s" and "dispatch ov s (classify input) = Inr s'"
  shows "consistent s'"
proof (cases "classify input")
  case Cruft
  with assms show ?thesis by simp
next
  case (TestStarted n)
  with assms show ?thesis
    by (auto simp: consistent_def newTestResult_def)
next
  case (TestFinished st n d)
  from classify_TestFinished [OF this] have st: "st \<noteq> []" by auto
  from assms(2) TestFinished obtain i where i: "findTest n (packageTestBuffer s) = Some i"
    and s': "s' = s\<lparr>packageTestBuffer :=
              (packageTestBuffer s)
                [i := (packageTestBuffer s ! i)\<lparr>status := st, durationSec := fst (ParseFloat32 d)\<rparr>],
            capturingTest := (if st = ''FAIL'' then Some i else capturingTest s)\<rparr>"
    by (auto split: option.splits)
  from findTest_Some [OF i] have len: "i < length (packageTestBuffer s)" by simp
  show ?thesis
    unfolding consistent_def
  proof (intro conjI ballI allI impI)
    fix t assume "t \<in> set (packageTestBuffer s')" and e: "status t = []"
    then have "t \<in> insert ((packageTestBuffer s ! i)\<lparr>status := st, durationSec := fst (ParseFloat32 d)\<rparr>) (set (packageTestBuffer s))"
      using set_update_subset_insert [of "packageTestBuffer s" i] s' by auto
    with e st have "t \<in> set (packageTestBuffer s)" by auto
    with assms(1) e show "output t = []" and "durationSec t = Finite 0"
      by (auto simp: consistent_def)
  next
    fix j assume "capturingTest s' = Some j"
    with s' have j: "j = i \<or> capturingTest s = Some j" by (auto split: if_splits)
    with assms(1) len s' show "j < length (packageTestBuffer s')"
      by (auto simp: consistent_def)
    from j assms(1) len s' st show "status (packageTestBuffer s' ! j) \<noteq> []"
      by (auto simp: consistent_def nth_list_update)
  qed
next
  case (PackageFinished n)
  with assms show ?thesis by (auto simp: consistent_def)
next
  case (Unclassified l)
  show ?thesis
  proof (cases "capturingTest s")
    case None
    with assms Unclassified show ?thesis by (auto simp: consistent_def)
  next
    case (Some i)
    with assms(2) Unclassified have s': "s' = s\<lparr>packageTestBuffer :=
                   (packageTestBuffer s)
                     [i := (packageTestBuffer s ! i)
                             \<lparr>output := output (packageTestBuffer s ! i) @ [l]\<rparr>]\<rparr>"
      by simp
    from assms(1) Some have len: "i < length (packageTestBuffer s)"
      and st: "status (packageTestBuffer s ! i) \<noteq> []"
      by (auto simp: consistent_def)
    show ?thesis
      unfolding consistent_def
    proof (intro conjI ballI allI impI)
      fix t assume "t \<in> set (packageTestBuffer s')" and e: "status t = []"
      then have "t \<in> insert ((packageTestBuffer s ! i)\<lparr>output := output (packageTestBuffer s ! i) @ [l]\<rparr>) (set (packageTestBuffer s))"
        using set_update_subset_insert [of "packageTestBuffer s" i] s' by auto
      with e st have "t \<in> set (packageTestBuffer s)" by auto
      with assms(1) e show "output t = []" and "durationSec t = Finite 0"
        by (auto simp: consistent_def)
    next
      fix j assume "capturingTest s' = Some j"
      with s' Some have j: "j = i" by simp
      with len s' show "j < length (packageTestBuffer s')" by simp
      from j len s' st show "status (packageTestBuffer s' ! j) \<noteq> []" by simp
    qed
  qed
qed

lemma run_consistent:
  "consistent s \<Longrightarrow> run ov s inputs = Inr s' \<Longrightarrow> consistent s'"
proof (induction inputs arbitrary: s)
  case Nil
  then show ?case by simp
next
  case (Cons input rest)
  from Cons.prems(2) obtain s1 where s1: "step ov s input = Inr s1" "run ov s1 rest = Inr s'"
    by (auto split: sum.splits)
  from dispatch_consistent [OF Cons.prems(1)] s1(1) have "consistent s1"
    by (simp add: step_def)
  from Cons.IH [OF this s1(2)] show ?case .
qed

lemma main_consistent: "main ov inputs = Inr s \<Longrightarrow> consistent s"
  unfolding main_def
  by (rule run_consistent [of initial]) (simp_all add: consistent_def initial_def)

lemma teamcity_text_unclassified:
  assumes "prefix ''##teamcity['' input"
  shows "classify input = Unclassified input"
proof -
  from assms obtain r where r: "input = ''##teamcity['' @ r" by (auto simp: prefix_def)
  show ?thesis
    unfolding classify_def cruftPattern_def testRunPattern_def testFinishPattern_def
      packageFinishPattern_def
    by (simp add: r)
qed

lemma showInt_0: "showInt 0 = ''0''"
  by code_simp

lemma mul1000_0: "toInt ov (mul1000 (Finite 0)) = 0"
  by (simp add: mul1000_def float64_def roundFloat_def toInt_def)

subsection \<open>Flushing a package\<close>

text \<open>
  C3: on a package-finish line the buffer is flushed once, as one suite block: the
  suite-started line, then the block of every buffered result in buffer order, then the
  suite-finished line; afterwards the buffer is empty. Buffer order is the order of the
  start lines since the last package-finish line (\<open>startOrder\<close>), whatever the order
  of the finish lines was.
\<close>

theorem package_flush:
  assumes "main ov inputs = Inr s" and "classify input = PackageFinished n"
  shows "step ov s input =
           Inr \<lparr>packageTestBuffer = [], capturingTest = None,
                stdout = stdout s
                  @ ''##teamcity[testSuiteStarted name='' @ sq @ escape n @ sq @ '']'' @ nl
                  @ concat (map (flush ov) (packageTestBuffer s))
                  @ ''##teamcity[testSuiteFinished name='' @ sq @ escape n @ sq @ '']'' @ nl\<rparr>
         \<and> map name (packageTestBuffer s) = startOrder [] (map classify inputs)"
proof -
  from assms(2) have "step ov s input =
           Inr \<lparr>packageTestBuffer = [], capturingTest = None,
                stdout = stdout s
                  @ ''##teamcity[testSuiteStarted name='' @ sq @ escape n @ sq @ '']'' @ nl
                  @ concat (map (flush ov) (packageTestBuffer s))
                  @ ''##teamcity[testSuiteFinished name='' @ sq @ escape n @ sq @ '']'' @ nl\<rparr>"
    by (simp add: step_def flushPackage_def testSuiteStartedLine_def testSuiteFinishedLine_def
        flushAll_concat)
  moreover from run_names [of ov initial inputs s] assms(1)
  have "map name (packageTestBuffer s) = startOrder [] (map classify inputs)"
    by (simp add: main_def initial_def)
  ultimately show ?thesis by simp
qed

theorem package_flush_witness:
  "main 0 [''=== RUN A'', ''=== RUN B'', ''--- PASS: B (0.00s)'', ''--- SKIP: A (0.00s)'']
     = Inr \<lparr>packageTestBuffer =
              [\<lparr>name = ''A'', status = ''SKIP'', output = [], durationSec = Finite 0\<rparr>,
               \<lparr>name = ''B'', status = ''PASS'', output = [], durationSec = Finite 0\<rparr>],
            capturingTest = None, stdout = []\<rparr>
   \<and> classify ''ok  pkg 0.1s'' = PackageFinished ''pkg''
   \<and> step 0 \<lparr>packageTestBuffer =
              [\<lparr>name = ''A'', status = ''SKIP'', output = [], durationSec = Finite 0\<rparr>,
               \<lparr>name = ''B'', status = ''PASS'', output = [], durationSec = Finite 0\<rparr>],
            capturingTest = None, stdout = []\<rparr> ''ok  pkg 0.1s''
     = Inr \<lparr>packageTestBuffer = [], capturingTest = None,
            stdout =
              ''##teamcity[testSuiteStarted name='' @ sq @ ''pkg'' @ sq @ '']'' @ nl
              @ ''##teamcity[testStarted name='' @ sq @ ''A'' @ sq @ '' captureStandardOutput=''
                @ sq @ ''true'' @ sq @ '']'' @ nl
              @ ''##teamcity[testIgnored name='' @ sq @ ''A'' @ sq @ '']'' @ nl
              @ ''##teamcity[testFinished name='' @ sq @ ''A'' @ sq @ '' duration='' @ sq @ ''0''
                @ sq @ '']'' @ nl
              @ ''##teamcity[testStarted name='' @ sq @ ''B'' @ sq @ '' captureStandardOutput=''
                @ sq @ ''true'' @ sq @ '']'' @ nl
              @ ''##teamcity[testFinished name='' @ sq @ ''B'' @ sq @ '' duration='' @ sq @ ''0''
                @ sq @ '']'' @ nl
              @ ''##teamcity[testSuiteFinished name='' @ sq @ ''pkg'' @ sq @ '']'' @ nl\<rparr>
   \<and> startOrder [] (map classify
         [''=== RUN A'', ''=== RUN B'', ''--- PASS: B (0.00s)'', ''--- SKIP: A (0.00s)''])
       = [''A'', ''B'']"
proof -
  let ?s = "\<lparr>packageTestBuffer =
              [\<lparr>name = ''A'', status = ''SKIP'', output = [], durationSec = Finite 0\<rparr>,
               \<lparr>name = ''B'', status = ''PASS'', output = [], durationSec = Finite 0\<rparr>],
            capturingTest = None, stdout = []\<rparr>"
  have a: "main 0 [''=== RUN A'', ''=== RUN B'', ''--- PASS: B (0.00s)'', ''--- SKIP: A (0.00s)'']
     = Inr ?s"
    by code_simp
  have b: "classify ''ok  pkg 0.1s'' = PackageFinished ''pkg''"
    by code_simp
  have f: "concat (map (flush 0) (packageTestBuffer ?s)) =
              ''##teamcity[testStarted name='' @ sq @ ''A'' @ sq @ '' captureStandardOutput=''
                @ sq @ ''true'' @ sq @ '']'' @ nl
              @ ''##teamcity[testIgnored name='' @ sq @ ''A'' @ sq @ '']'' @ nl
              @ ''##teamcity[testFinished name='' @ sq @ ''A'' @ sq @ '' duration='' @ sq @ ''0''
                @ sq @ '']'' @ nl
              @ ''##teamcity[testStarted name='' @ sq @ ''B'' @ sq @ '' captureStandardOutput=''
                @ sq @ ''true'' @ sq @ '']'' @ nl
              @ ''##teamcity[testFinished name='' @ sq @ ''B'' @ sq @ '' duration='' @ sq @ ''0''
                @ sq @ '']'' @ nl"
    by code_simp
  have e: "escape ''pkg'' = ''pkg''"
    by code_simp
  from package_flush [OF a b] have
    "step 0 ?s ''ok  pkg 0.1s'' =
           Inr \<lparr>packageTestBuffer = [], capturingTest = None,
                stdout = stdout ?s
                  @ ''##teamcity[testSuiteStarted name='' @ sq @ escape ''pkg'' @ sq @ '']'' @ nl
                  @ concat (map (flush 0) (packageTestBuffer ?s))
                  @ ''##teamcity[testSuiteFinished name='' @ sq @ escape ''pkg'' @ sq @ '']'' @ nl\<rparr>"
    and n: "map name (packageTestBuffer ?s) = startOrder [] (map classify
         [''=== RUN A'', ''=== RUN B'', ''--- PASS: B (0.00s)'', ''--- SKIP: A (0.00s)''])"
    by blast+
  then have c: "step 0 ?s ''ok  pkg 0.1s'' =
           Inr \<lparr>packageTestBuffer = [], capturingTest = None,
                stdout = 
                   ''##teamcity[testSuiteStarted name='' @ sq @ ''pkg'' @ sq @ '']'' @ nl
              @ ''##teamcity[testStarted name='' @ sq @ ''A'' @ sq @ '' captureStandardOutput=''
                @ sq @ ''true'' @ sq @ '']'' @ nl
              @ ''##teamcity[testIgnored name='' @ sq @ ''A'' @ sq @ '']'' @ nl
              @ ''##teamcity[testFinished name='' @ sq @ ''A'' @ sq @ '' duration='' @ sq @ ''0''
                @ sq @ '']'' @ nl
              @ ''##teamcity[testStarted name='' @ sq @ ''B'' @ sq @ '' captureStandardOutput=''
                @ sq @ ''true'' @ sq @ '']'' @ nl
              @ ''##teamcity[testFinished name='' @ sq @ ''B'' @ sq @ '' duration='' @ sq @ ''0''
                @ sq @ '']'' @ nl
                  @ ''##teamcity[testSuiteFinished name='' @ sq @ ''pkg'' @ sq @ '']'' @ nl\<rparr>"
    unfolding f e by simp
  from n have n': "startOrder [] (map classify
         [''=== RUN A'', ''=== RUN B'', ''--- PASS: B (0.00s)'', ''--- SKIP: A (0.00s)''])
       = [''A'', ''B'']"
    by simp
  from a b c n' show ?thesis by (intro conjI)
qed

subsection \<open>Unclassified lines\<close>

text \<open>
  C7: a line that no pattern matches, in particular any line that starts like a service
  message \<^verbatim>\<open>##teamcity[\<close>, is kept as it is. While a test is capturing, the line is
  appended to the output of that result and nothing is printed; otherwise the line is
  printed at once, unchanged. Nothing else of the state changes.
\<close>

theorem unclassified_line:
  assumes "main ov inputs = Inr s"
    and "classify input = Unclassified l \<or> prefix ''##teamcity['' input"
  shows "classify input = Unclassified input
         \<and> (case capturingTest s of
               None \<Rightarrow> step ov s input = Inr (s\<lparr>stdout := stdout s @ input @ nl\<rparr>)
             | Some i \<Rightarrow>
                 i < length (packageTestBuffer s)
                 \<and> step ov s input =
                     Inr (s\<lparr>packageTestBuffer :=
                              (packageTestBuffer s)
                                [i := (packageTestBuffer s ! i)
                                        \<lparr>output := output (packageTestBuffer s ! i) @ [input]\<rparr>]\<rparr>))"
proof -
  from assms(2) have c: "classify input = Unclassified input"
    using classify_Unclassified teamcity_text_unclassified by blast
  from main_consistent [OF assms(1)]
  have "\<And>i. capturingTest s = Some i \<Longrightarrow> i < length (packageTestBuffer s)"
    by (simp add: consistent_def)
  with c show ?thesis
    by (simp add: step_def split: option.splits)
qed

theorem unclassified_line_witness:
  "main 0 [''=== RUN A'', ''--- FAIL: A (0.00s)'']
     = Inr \<lparr>packageTestBuffer =
              [\<lparr>name = ''A'', status = ''FAIL'', output = [], durationSec = Finite 0\<rparr>],
            capturingTest = Some 0, stdout = []\<rparr>
   \<and> prefix ''##teamcity['' ''##teamcity[testFinished name=x]''
   \<and> classify ''##teamcity[testFinished name=x]'' = Unclassified ''##teamcity[testFinished name=x]''
   \<and> step 0 \<lparr>packageTestBuffer =
              [\<lparr>name = ''A'', status = ''FAIL'', output = [], durationSec = Finite 0\<rparr>],
            capturingTest = Some 0, stdout = []\<rparr> ''##teamcity[testFinished name=x]''
     = Inr \<lparr>packageTestBuffer =
              [\<lparr>name = ''A'', status = ''FAIL'', output = [''##teamcity[testFinished name=x]''],
                durationSec = Finite 0\<rparr>],
            capturingTest = Some 0, stdout = []\<rparr>"
proof -
  let ?s = "\<lparr>packageTestBuffer =
              [\<lparr>name = ''A'', status = ''FAIL'', output = [], durationSec = Finite 0\<rparr>],
            capturingTest = Some 0, stdout = []\<rparr>"
  have a: "main 0 [''=== RUN A'', ''--- FAIL: A (0.00s)''] = Inr ?s"
    by code_simp
  have b: "prefix ''##teamcity['' ''##teamcity[testFinished name=x]''"
    by simp
  from unclassified_line [OF a disjI2 [OF b]] a b show ?thesis
    by simp
qed

subsection \<open>The capturing test after a finish line\<close>

text \<open>
  C1 (as amended): a finish line for a test of the buffer sets the status and the
  duration of the first result with that name. When the status is FAIL that result
  becomes the capturing test; when the status is PASS or SKIP the capturing test is left
  as it was (it is not cleared).
\<close>

theorem test_finished_capturing:
  assumes "classify input = TestFinished st n d"
    and "findTest n (packageTestBuffer s) = Some i"
  shows "(st = ''PASS'' \<or> st = ''FAIL'' \<or> st = ''SKIP'')
         \<and> i < length (packageTestBuffer s) \<and> name (packageTestBuffer s ! i) = n
         \<and> step ov s input =
             Inr (s\<lparr>packageTestBuffer :=
                      (packageTestBuffer s)
                        [i := (packageTestBuffer s ! i)
                                \<lparr>status := st, durationSec := fst (ParseFloat32 d)\<rparr>],
                    capturingTest := (if st = ''FAIL'' then Some i else capturingTest s)\<rparr>)"
  using assms classify_TestFinished [OF assms(1)] findTest_Some [OF assms(2)]
  by (simp add: step_def)

theorem test_finished_capturing_witness:
  "classify ''--- PASS: B (0.00s)'' = TestFinished ''PASS'' ''B'' ''0.00''
   \<and> findTest ''B''
         [\<lparr>name = ''A'', status = ''FAIL'', output = [], durationSec = Finite 0\<rparr>,
          \<lparr>name = ''B'', status = [], output = [], durationSec = Finite 0\<rparr>] = Some 1
   \<and> step 0 \<lparr>packageTestBuffer =
              [\<lparr>name = ''A'', status = ''FAIL'', output = [], durationSec = Finite 0\<rparr>,
               \<lparr>name = ''B'', status = [], output = [], durationSec = Finite 0\<rparr>],
            capturingTest = Some 0, stdout = []\<rparr> ''--- PASS: B (0.00s)''
     = Inr \<lparr>packageTestBuffer =
              [\<lparr>name = ''A'', status = ''FAIL'', output = [], durationSec = Finite 0\<rparr>,
               \<lparr>name = ''B'', status = ''PASS'', output = [], durationSec = Finite 0\<rparr>],
            capturingTest = Some 0, stdout = []\<rparr>"
proof -
  let ?s = "\<lparr>packageTestBuffer =
              [\<lparr>name = ''A'', status = ''FAIL'', output = [], durationSec = Finite 0\<rparr>,
               \<lparr>name = ''B'', status = [], output = [], durationSec = Finite 0\<rparr>],
            capturingTest = Some 0, stdout = []\<rparr>"
  have a: "classify ''--- PASS: B (0.00s)'' = TestFinished ''PASS'' ''B'' ''0.00''"
    by code_simp
  have b: "findTest ''B'' (packageTestBuffer ?s) = Some 1"
    by simp
  have p: "fst (ParseFloat32 ''0.00'') = Finite 0"
    by code_simp
  from test_finished_capturing [OF a b, of 0] a b p show ?thesis
    by simp
qed

text \<open>
  The claim as stated fails: after the PASS line of B the failed test A is still
  capturing, and absorbs the next unclassified line.
\<close>

theorem test_finished_capturing_counterexample:
  "main 0 [''=== RUN A'', ''=== RUN B'', ''--- FAIL: A (0.00s)'', ''--- PASS: B (0.00s)'',
           ''stray'']
     = Inr \<lparr>packageTestBuffer =
              [\<lparr>name = ''A'', status = ''FAIL'', output = [''stray''], durationSec = Finite 0\<rparr>,
               \<lparr>name = ''B'', status = ''PASS'', output = [], durationSec = Finite 0\<rparr>],
            capturingTest = Some 0, stdout = []\<rparr>"
  by code_simp

subsection \<open>A finish line for an unknown test\<close>

text \<open>
  C2 (as amended): a finish line whose test name has no result in the buffer makes the
  program panic with the fixed text \<^verbatim>\<open>Run `go test` with -v\<close>, which does not mention
  the test name; the lines after it are not processed.
\<close>

theorem unknown_test_panics:
  assumes "classify input = TestFinished st n d"
    and "n \<notin> name ` set (packageTestBuffer s)"
  shows "step ov s input = Inl (Panic ''Run `go test` with -v'')
         \<and> run ov s (input # rest) = Inl (Panic ''Run `go test` with -v'')"
  using assms findTest_None [of n "packageTestBuffer s"]
  by (simp add: step_def panicMessage_def)

theorem unknown_test_panics_witness:
  "classify ''--- FAIL: TestFoo (0.01s)'' = TestFinished ''FAIL'' ''TestFoo'' ''0.01''
   \<and> ''TestFoo'' \<notin> name ` set (packageTestBuffer initial)
   \<and> step 0 initial ''--- FAIL: TestFoo (0.01s)'' = Inl (Panic ''Run `go test` with -v'')
   \<and> run 0 initial [''--- FAIL: TestFoo (0.01s)'', ''=== RUN TestFoo'', ''ok  pkg 0.1s'']
       = Inl (Panic ''Run `go test` with -v'')"
proof -
  have a: "classify ''--- FAIL: TestFoo (0.01s)'' = TestFinished ''FAIL'' ''TestFoo'' ''0.01''"
    by code_simp
  have b: "''TestFoo'' \<notin> name ` set (packageTestBuffer initial)"
    by (simp add: initial_def)
  from unknown_test_panics [OF a b, of 0 "[''=== RUN TestFoo'', ''ok  pkg 0.1s'']"] a b
  show ?thesis by simp
qed

text \<open>
  The claim as stated fails: the diagnostic is the same for two different unknown
  names and contains neither.
\<close>

theorem unknown_test_panics_counterexample:
  "main 0 [''--- FAIL: TestFoo (0.01s)''] = Inl (Panic ''Run `go test` with -v'')
   \<and> main 0 [''--- FAIL: TestBar (0.01s)''] = Inl (Panic ''Run `go test` with -v'')
   \<and> \<not> sublist ''TestFoo'' ''Run `go test` with -v''
   \<and> \<not> sublist ''TestBar'' ''Run `go test` with -v''"
  by code_simp

subsection \<open>A test that never finished\<close>

text \<open>
  C10: a result of a reachable buffer whose status is still empty (it was started and no
  finish line has set its status) has no captured output, and its flush prints the
  test-started line and the test-finished line with duration 0 and nothing else.
\<close>

theorem pending_flush:
  assumes "main ov inputs = Inr s" and "t \<in> set (packageTestBuffer s)" and "status t = []"
  shows "output t = []
         \<and> flush ov t =
             ''##teamcity[testStarted name='' @ sq @ escape (name t) @ sq
               @ '' captureStandardOutput='' @ sq @ ''true'' @ sq @ '']'' @ nl
             @ ''##teamcity[testFinished name='' @ sq @ escape (name t) @ sq @ '' duration='' @ sq
               @ ''0'' @ sq @ '']'' @ nl"
proof -
  from main_consistent [OF assms(1)] assms(2,3)
  have o: "output t = []" and d: "durationSec t = Finite 0"
    by (auto simp: consistent_def)
  with assms(3) show ?thesis
    by (simp add: flush_def testStartedLine_def testFinishedLine_def mul1000_0 showInt_0)
qed

theorem pending_flush_witness:
  "main 0 [''=== RUN A''] 
     = Inr \<lparr>packageTestBuffer =
              [\<lparr>name = ''A'', status = [], output = [], durationSec = Finite 0\<rparr>],
            capturingTest = None, stdout = []\<rparr>
   \<and> flush 0 \<lparr>name = ''A'', status = [], output = [], durationSec = Finite 0\<rparr> =
             ''##teamcity[testStarted name='' @ sq @ ''A'' @ sq
               @ '' captureStandardOutput='' @ sq @ ''true'' @ sq @ '']'' @ nl
             @ ''##teamcity[testFinished name='' @ sq @ ''A'' @ sq @ '' duration='' @ sq
               @ ''0'' @ sq @ '']'' @ nl"
proof -
  let ?t = "\<lparr>name = ''A'', status = [], output = [], durationSec = Finite 0\<rparr>"
  let ?s = "\<lparr>packageTestBuffer = [?t], capturingTest = None, stdout = []\<rparr>"
  have a: "main 0 [''=== RUN A''] = Inr ?s"
    by code_simp
  have b: "?t \<in> set (packageTestBuffer ?s)"
    by simp
  have c: "status ?t = []"
    by simp
  have e: "escape ''A'' = ''A''"
    by code_simp
  from pending_flush [OF a b c] a e show ?thesis
    by simp
qed

subsection \<open>The message of a failed test\<close>

lemma tryWs_Some:
  "tryWs rest k = Some m \<Longrightarrow>
     \<exists>j. 1 \<le> j \<and> j \<le> k \<and> j < length rest \<and> rest ! j \<noteq> CHR 0x0A
        \<and> m = take j rest @ takeWhile (\<lambda>c. c \<noteq> CHR 0x0A) (drop j rest)"
proof (induction k)
  case 0
  then show ?case by simp
next
  case (Suc k)
  show ?case
  proof (cases "Suc k < length rest \<and> rest ! Suc k \<noteq> CHR 0x0A")
    case True
    with Suc.prems have "m = take (Suc k) rest @ takeWhile (\<lambda>c. c \<noteq> CHR 0x0A) (drop (Suc k) rest)"
      by simp
    with True show ?thesis by (intro exI [of _ "Suc k"]) simp
  next
    case False
    with Suc.prems have "tryWs rest k = Some m" by auto
    from Suc.IH [OF this] obtain j where "1 \<le> j" "j \<le> k" "j < length rest" "rest ! j \<noteq> CHR 0x0A"
      "m = take j rest @ takeWhile (\<lambda>c. c \<noteq> CHR 0x0A) (drop j rest)" by blast
    then show ?thesis by (intro exI [of _ j]) simp
  qed
qed

lemma tryWs_None:
  "tryWs rest k = None \<Longrightarrow> 1 \<le> j \<Longrightarrow> j \<le> k \<Longrightarrow> \<not> (j < length rest \<and> rest ! j \<noteq> CHR 0x0A)"
proof (induction k)
  case 0
  then show ?case by simp
next
  case (Suc k)
  show ?case
  proof (cases "j = Suc k")
    case True
    with Suc.prems(1) show ?thesis by (auto split: if_splits)
  next
    case False
    with Suc.prems have "j \<le> k" and "tryWs rest k = None" by (auto split: if_splits)
    with Suc.IH Suc.prems(2) show ?thesis by blast
  qed
qed

lemma matchErrorAt_sound:
  assumes "matchErrorAt s = Some m"
  shows "\<exists>post. s = m @ post \<and> errorMatch m \<and> lineEnd post"
proof -
  from assms have p: "prefix ''Error:'' s"
    by (auto simp: matchErrorAt_def split: if_splits)
  then obtain rest where s: "s = ''Error:'' @ rest" by (auto simp: prefix_def)
  then have d: "drop 6 s = rest" by simp
  from assms p d obtain m' where
    t: "tryWs rest (length (takeWhile reSpace rest)) = Some m'" and m: "m = ''Error:'' @ m'"
    by (auto simp: matchErrorAt_def split: option.splits)
  from tryWs_Some [OF t] obtain j where j: "1 \<le> j" "j \<le> length (takeWhile reSpace rest)"
    "j < length rest" "rest ! j \<noteq> CHR 0x0A"
    and m': "m' = take j rest @ takeWhile (\<lambda>c. c \<noteq> CHR 0x0A) (drop j rest)" by blast
  let ?ws = "take j rest"
  let ?body = "takeWhile (\<lambda>c. c \<noteq> CHR 0x0A) (drop j rest)"
  let ?post = "dropWhile (\<lambda>c. c \<noteq> CHR 0x0A) (drop j rest)"
  have "?ws = take j (takeWhile reSpace rest)"
    using j(2) by (metis append_eq_conv_conj takeWhile_dropWhile_id take_append take_all_iff
        diff_is_0_eq' take_0 append_Nil2 length_take min.absorb2 append_take_drop_id)
  then have ws: "\<forall>c \<in> set ?ws. reSpace c"
    by (metis in_set_takeD set_takeWhileD)
  from j(1,3) have wsne: "?ws \<noteq> []" by auto
  from j(3) have "drop j rest = rest ! j # drop (Suc j) rest"
    by (simp add: Cons_nth_drop_Suc)
  with j(4) have bne: "?body \<noteq> []" by simp
  have bnl: "CHR 0x0A \<notin> set ?body"
    by (auto dest: set_takeWhileD)
  have le: "lineEnd ?post"
    unfolding lineEnd_def using hd_dropWhile [of "\<lambda>c. c \<noteq> CHR 0x0A" "drop j rest"] by auto
  have "rest = ?ws @ ?body @ ?post" by simp
  with s m m' have "s = m @ ?post" by simp
  moreover have "errorMatch m"
    unfolding errorMatch_def using m m' ws wsne bne bnl by blast
  ultimately show ?thesis using le by blast
qed

lemma matchErrorAt_complete:
  assumes "errorMatch m"
  shows "matchErrorAt (m @ post) \<noteq> None"
proof -
  from assms obtain ws body where m: "m = ''Error:'' @ ws @ body" and ws: "ws \<noteq> []"
    "\<forall>c \<in> set ws. reSpace c" and body: "body \<noteq> []" "CHR 0x0A \<notin> set body"
    unfolding errorMatch_def by blast
  let ?rest = "ws @ body @ post"
  have p: "prefix ''Error:'' (m @ post)" and d: "drop 6 (m @ post) = ?rest"
    by (simp_all add: m)
  have "takeWhile reSpace ?rest = ws @ takeWhile reSpace (body @ post)"
    using ws(2) by (simp add: takeWhile_append2)
  then have L: "length ws \<le> length (takeWhile reSpace ?rest)" by simp
  from ws(1) have j1: "1 \<le> length ws" by (cases ws) auto
  from body(1) have j2: "length ws < length ?rest" by (cases body) auto
  from body have "?rest ! length ws \<noteq> CHR 0x0A"
    by (cases body) (auto simp: nth_append)
  with tryWs_None [of ?rest "length (takeWhile reSpace ?rest)" "length ws"] j1 j2 L
  have "tryWs ?rest (length (takeWhile reSpace ?rest)) \<noteq> None" by blast
  with p d show ?thesis
    by (auto simp: matchErrorAt_def simp del: append.simps split: option.splits)
qed

lemma errorMatch_nonempty: "errorMatch m \<Longrightarrow> m \<noteq> []"
  by (auto simp: errorMatch_def)

lemma occursAt_Suc: "occursAt (c # cs) (Suc k) m = occursAt cs k m"
  by (simp add: occursAt_def)

lemma occursAt_0: "occursAt s 0 m \<Longrightarrow> matchErrorAt s \<noteq> None"
  using matchErrorAt_complete by (auto simp: occursAt_def)

lemma FindErrorString_none:
  "FindErrorString s = [] \<Longrightarrow> \<not> occursAt s k m"
proof (induction s arbitrary: k)
  case Nil
  then show ?case by (auto simp: occursAt_def dest: errorMatch_nonempty)
next
  case (Cons c cs)
  show ?case
  proof (cases "matchErrorAt (c # cs)")
    case (Some m')
    with Cons.prems have "m' = []" by simp
    with matchErrorAt_sound [OF Some] show ?thesis by (auto dest: errorMatch_nonempty)
  next
    case None
    with Cons.prems have "FindErrorString cs = []" by simp
    from Cons.IH [OF this] None show ?thesis
      by (cases k) (auto simp: occursAt_Suc dest: occursAt_0)
  qed
qed

lemma FindErrorString_first:
  "FindErrorString s \<noteq> [] \<Longrightarrow>
     \<exists>k. occursAt s k (FindErrorString s) \<and> (\<forall>k' m'. occursAt s k' m' \<longrightarrow> k \<le> k')"
proof (induction s)
  case Nil
  then show ?case by simp
next
  case (Cons c cs)
  show ?case
  proof (cases "matchErrorAt (c # cs)")
    case (Some m)
    from matchErrorAt_sound [OF Some] have "occursAt (c # cs) 0 m"
      by (auto simp: occursAt_def)
    with Some show ?thesis by (intro exI [of _ 0]) simp
  next
    case None
    with Cons.prems have ne: "FindErrorString cs \<noteq> []" by simp
    from Cons.IH [OF ne] obtain k where k: "occursAt cs k (FindErrorString cs)"
      "\<forall>k' m'. occursAt cs k' m' \<longrightarrow> k \<le> k'" by blast
    have "\<forall>k' m'. occursAt (c # cs) k' m' \<longrightarrow> Suc k \<le> k'"
    proof (intro allI impI)
      fix k' m' assume o: "occursAt (c # cs) k' m'"
      show "Suc k \<le> k'"
      proof (cases k')
        case 0
        with o None show ?thesis by (auto dest: occursAt_0)
      next
        case (Suc k'')
        with o k(2) show ?thesis by (auto simp: occursAt_Suc)
      qed
    qed
    with k(1) None show ?thesis
      by (intro exI [of _ "Suc k"]) (simp add: occursAt_Suc)
  qed
qed

lemma SplitNl_nonempty: "SplitNl s \<noteq> []"
  by (induction s) (auto split: list.splits)

lemma hd_SplitNl: "hd (SplitNl s) = takeWhile (\<lambda>c. c \<noteq> CHR 0x0A) s"
  using SplitNl_nonempty by (induction s) (auto split: list.splits)

lemma Join_first_line:
  "out \<noteq> [] \<Longrightarrow> CHR 0x0A \<notin> set (hd out) \<Longrightarrow>
     takeWhile (\<lambda>c. c \<noteq> CHR 0x0A) (Join out nl) = hd out"
proof (cases out)
  case Nil
  assume "out \<noteq> []" with Nil show ?thesis by simp
next
  case (Cons x xs)
  assume "CHR 0x0A \<notin> set (hd out)"
  with Cons show ?thesis
    by (cases xs) (auto simp: takeWhile_tail takeWhile_eq_all_conv)
qed

lemma TrimSpace_Nil: "TrimSpace [] = []"
  by (simp add: TrimSpace_def TrimRightSpace.simps [of "[]"])

text \<open>
  C6: the flush of a result with status FAIL prints, after the test-started line and the
  captured output, a test-failed line whose message attribute is the escaped form of the
  following text. If the pattern \<^verbatim>\<open>Error:\<close>, white space, rest of the line matches
  somewhere in the output (its lines joined by newlines), the text is a match at the
  leftmost such place. Otherwise it is the first line of the output, with leading and
  trailing white space trimmed. For an empty output it is the empty string.
\<close>

theorem failure_message:
  assumes "status t = ''FAIL''"
  shows "flush ov t =
           ''##teamcity[testStarted name='' @ sq @ escape (name t) @ sq
             @ '' captureStandardOutput='' @ sq @ ''true'' @ sq @ '']'' @ nl
           @ (if output t = [] then [] else Join (output t) nl @ nl)
           @ ''##teamcity[testFailed name='' @ sq @ escape (name t) @ sq @ '' message='' @ sq
             @ escape (failureMessage (Join (output t) nl)) @ sq @ '']'' @ nl
           @ testFinishedLine (name t) (toInt ov (mul1000 (durationSec t)))
         \<and> ((\<exists>k m. occursAt (Join (output t) nl) k m) \<longrightarrow>
              (\<exists>k. occursAt (Join (output t) nl) k (failureMessage (Join (output t) nl))
                 \<and> (\<forall>k' m'. occursAt (Join (output t) nl) k' m' \<longrightarrow> k \<le> k')))
         \<and> (\<not> (\<exists>k m. occursAt (Join (output t) nl) k m) \<longrightarrow>
              failureMessage (Join (output t) nl)
                = TrimSpace (takeWhile (\<lambda>c. c \<noteq> CHR 0x0A) (Join (output t) nl))
              \<and> (output t \<noteq> [] \<and> CHR 0x0A \<notin> set (hd (output t)) \<longrightarrow>
                   failureMessage (Join (output t) nl) = TrimSpace (hd (output t))))
         \<and> (output t = [] \<longrightarrow> failureMessage (Join (output t) nl) = [])"
proof (intro conjI impI)
  let ?j = "Join (output t) nl"
  show "flush ov t =
           ''##teamcity[testStarted name='' @ sq @ escape (name t) @ sq
             @ '' captureStandardOutput='' @ sq @ ''true'' @ sq @ '']'' @ nl
           @ (if output t = [] then [] else ?j @ nl)
           @ ''##teamcity[testFailed name='' @ sq @ escape (name t) @ sq @ '' message='' @ sq
             @ escape (failureMessage ?j) @ sq @ '']'' @ nl
           @ testFinishedLine (name t) (toInt ov (mul1000 (durationSec t)))"
    using assms by (simp add: flush_def testStartedLine_def testFailedLine_def Let_def)
  {
    assume "\<exists>k m. occursAt ?j k m"
    then have ne: "FindErrorString ?j \<noteq> []"
      using FindErrorString_none by blast
    then have "failureMessage ?j = FindErrorString ?j"
      by (simp add: failureMessage_def)
    with FindErrorString_first [OF ne]
    show "\<exists>k. occursAt ?j k (failureMessage ?j) \<and> (\<forall>k' m'. occursAt ?j k' m' \<longrightarrow> k \<le> k')"
      by simp
  }
  {
    assume no: "\<not> (\<exists>k m. occursAt ?j k m)"
    have "FindErrorString ?j = []"
    proof (rule ccontr)
      assume "FindErrorString ?j \<noteq> []"
      from FindErrorString_first [OF this] no show False by blast
    qed
    then show tr: "failureMessage ?j = TrimSpace (takeWhile (\<lambda>c. c \<noteq> CHR 0x0A) ?j)"
      by (simp add: failureMessage_def hd_SplitNl)
    assume "output t \<noteq> [] \<and> CHR 0x0A \<notin> set (hd (output t))"
    with tr show "failureMessage ?j = TrimSpace (hd (output t))"
      by (simp add: Join_first_line)
  }
  {
    assume "output t = []"
    then show "failureMessage ?j = []"
      by (simp add: failureMessage_def TrimSpace_Nil)
  }
qed

theorem failure_message_witness:
  "status \<lparr>name = ''T'', status = ''FAIL'',
            output = [''  x_test.go:9:'', ''      Error:  boom'', ''      more''],
            durationSec = Finite 0\<rparr> = ''FAIL''
   \<and> occursAt (Join [''  x_test.go:9:'', ''      Error:  boom'', ''      more''] nl) 21
         ''Error:  boom''
   \<and> flush 0 \<lparr>name = ''T'', status = ''FAIL'',
            output = [''  x_test.go:9:'', ''      Error:  boom'', ''      more''],
            durationSec = Finite 0\<rparr> =
        ''##teamcity[testStarted name='' @ sq @ ''T'' @ sq
          @ '' captureStandardOutput='' @ sq @ ''true'' @ sq @ '']'' @ nl
        @ ''  x_test.go:9:'' @ nl @ ''      Error:  boom'' @ nl @ ''      more'' @ nl
        @ ''##teamcity[testFailed name='' @ sq @ ''T'' @ sq @ '' message='' @ sq
          @ ''Error:|0x0020|0x0020boom'' @ sq @ '']'' @ nl
        @ ''##teamcity[testFinished name='' @ sq @ ''T'' @ sq @ '' duration='' @ sq @ ''0''
          @ sq @ '']'' @ nl
   \<and> \<not> (\<exists>k m. occursAt (Join [''  plain failure  '', ''more''] nl) k m)
   \<and> failureMessage (Join [''  plain failure  '', ''more''] nl) = ''plain failure''
   \<and> failureMessage (Join [] nl) = []"
proof -
  let ?t = "\<lparr>name = ''T'', status = ''FAIL'',
            output = [''  x_test.go:9:'', ''      Error:  boom'', ''      more''],
            durationSec = Finite 0\<rparr>"
  let ?u = "\<lparr>name = ''U'', status = ''FAIL'', output = [''  plain failure  '', ''more''],
            durationSec = Finite 0\<rparr>"
  let ?v = "\<lparr>name = ''V'', status = ''FAIL'', output = [], durationSec = Finite 0\<rparr>"
  have st: "status ?t = ''FAIL''" "status ?u = ''FAIL''" "status ?v = ''FAIL''"
    by simp_all
  have em: "errorMatch ''Error:  boom''"
    unfolding errorMatch_def
    by (rule exI [of _ "''  ''"], rule exI [of _ "''boom''"]) (simp add: reSpace_def)
  have oc: "occursAt (Join (output ?t) nl) 21 ''Error:  boom''"
    unfolding occursAt_def using em
    by (simp add: lineEnd_def)
  have fm: "failureMessage (Join (output ?t) nl) = ''Error:  boom''"
    by code_simp
  have es: "escape ''Error:  boom'' = ''Error:|0x0020|0x0020boom''" "escape ''T'' = ''T''"
    by code_simp+
  have fin: "testFinishedLine ''T'' (toInt 0 (mul1000 (Finite 0))) =
        ''##teamcity[testFinished name='' @ sq @ ''T'' @ sq @ '' duration='' @ sq @ ''0''
          @ sq @ '']'' @ nl"
    by code_simp
  have no: "\<not> (\<exists>k m. occursAt (Join (output ?u) nl) k m)"
  proof -
    have "FindErrorString (Join (output ?u) nl) = []" by code_simp
    from FindErrorString_none [OF this] show ?thesis by blast
  qed
  have tu: "TrimSpace (hd (output ?u)) = ''plain failure''"
    by code_simp
  have hu: "output ?u \<noteq> [] \<and> CHR 0x0A \<notin> set (hd (output ?u))"
    by simp
  from failure_message [OF st(1), of 0] oc fm es fin
  have 1: "flush 0 ?t =
        ''##teamcity[testStarted name='' @ sq @ ''T'' @ sq
          @ '' captureStandardOutput='' @ sq @ ''true'' @ sq @ '']'' @ nl
        @ ''  x_test.go:9:'' @ nl @ ''      Error:  boom'' @ nl @ ''      more'' @ nl
        @ ''##teamcity[testFailed name='' @ sq @ ''T'' @ sq @ '' message='' @ sq
          @ ''Error:|0x0020|0x0020boom'' @ sq @ '']'' @ nl
        @ ''##teamcity[testFinished name='' @ sq @ ''T'' @ sq @ '' duration='' @ sq @ ''0''
          @ sq @ '']'' @ nl"
    by simp
  from failure_message [OF st(2), of 0] no hu tu
  have 2: "failureMessage (Join (output ?u) nl) = ''plain failure''"
    by simp
  from failure_message [OF st(3), of 0]
  have 3: "failureMessage (Join (output ?v) nl) = []"
    by simp
  from st(1) oc 1 no 2 3 show ?thesis by simp
qed

subsection \<open>Duration literals\<close>

lemma isDigit_not_dot: "isDigit c \<Longrightarrow> c \<noteq> CHR ''.''"
  by (auto simp: isDigit_def)

lemma digits_filter:
  assumes "\<forall>c \<in> set ds. isDigit c"
  shows "filter isDigit ds = ds" and "filter (\<lambda>c. c = CHR ''.'') ds = []"
    and "dropWhile (\<lambda>c. c \<noteq> CHR ''.'') ds = []"
  using assms by (auto simp: filter_empty_conv dest: isDigit_not_dot)

lemma ParseFloat32_grammar:
  assumes "list_all digitOrDot d"
  shows "ParseFloat32 d =
           (if malformed d then (Finite 0, True)
            else (case float32 (literalValue d) of
                    PosInf \<Rightarrow> (PosInf, True)
                  | Finite v \<Rightarrow> (Finite v, False)))"
proof -
  let ?ip = "takeWhile isDigit d" and ?r = "dropWhile isDigit d"
  have d: "d = ?ip @ ?r" by simp
  have ip: "\<forall>c \<in> set ?ip. isDigit c" by (auto dest: set_takeWhileD)
  show ?thesis
  proof (cases ?r)
    case Nil
    then have all: "\<forall>c \<in> set d. isDigit c" by (simp add: dropWhile_eq_Nil_conv)
    then have dd: "?ip = d" by (simp add: takeWhile_eq_all_conv)
    note df = digits_filter [OF all]
    have m: "malformed d \<longleftrightarrow> d = []"
      unfolding malformed_def df by simp
    have v: "literalValue d = of_int (digitsVal d)"
      unfolding literalValue_def df by simp
    have "ParseFloat32 d =
        (if ?ip = [] then (Finite 0, True)
         else (case float32 (of_int (digitsVal ?ip)) of
                 PosInf \<Rightarrow> (PosInf, True) | Finite v \<Rightarrow> (Finite v, False)))"
      unfolding ParseFloat32_def Let_def Nil by simp
    then show ?thesis
      unfolding dd m v by simp
  next
    case (Cons c r')
    have "\<not> isDigit c"
      using Cons hd_dropWhile [of isDigit d] by (metis list.sel(1) list.distinct(1))
    moreover have "c \<in> set d"
      using Cons set_dropWhileD [of c isDigit d] by simp
    then have "digitOrDot c"
      using assms by (simp add: list_all_iff)
    ultimately have c: "c = CHR ''.''" by (simp add: digitOrDot_def)
    let ?fp = "takeWhile isDigit r'" and ?rest = "dropWhile isDigit r'"
    have fp: "\<forall>c \<in> set ?fp. isDigit c" by (auto dest: set_takeWhileD)
    have d2: "d = ?ip @ CHR ''.'' # ?fp @ ?rest" using d Cons c by simp
    have pf: "ParseFloat32 d =
        (if ?rest \<noteq> [] \<or> (?ip = [] \<and> ?fp = []) then (Finite 0, True)
         else (case float32 (of_int (digitsVal (?ip @ ?fp)) / 10 ^ length ?fp) of
                 PosInf \<Rightarrow> (PosInf, True) | Finite v \<Rightarrow> (Finite v, False)))"
      using Cons c by (simp add: ParseFloat32_def Let_def)
    show ?thesis
    proof (cases ?rest)
      case Nil
      with d2 have d3: "d = ?ip @ CHR ''.'' # ?fp" by simp
      have f1: "filter isDigit d = ?ip @ ?fp"
        by (subst d3) (simp add: digits_filter(1) [OF ip] digits_filter(1) [OF fp] isDigit_def)
      have f2: "filter (\<lambda>c. c = CHR ''.'') d = [CHR ''.'']"
        by (subst d3) (simp add: digits_filter(2) [OF ip] digits_filter(2) [OF fp])
      have "dropWhile (\<lambda>c. c \<noteq> CHR ''.'') d = CHR ''.'' # ?fp"
        by (subst d3) (simp add: dropWhile_append3 digits_filter(3) [OF ip] ip isDigit_not_dot
            dropWhile_append2)
      then have f3: "filter isDigit (dropWhile (\<lambda>c. c \<noteq> CHR ''.'') d) = ?fp"
        by (simp add: digits_filter(1) [OF fp] isDigit_def)
      from f1 f2 have m: "malformed d \<longleftrightarrow> ?ip = [] \<and> ?fp = []"
        by (simp add: malformed_def)
      from f1 f3 have v: "literalValue d = of_int (digitsVal (?ip @ ?fp)) / 10 ^ length ?fp"
        by (simp add: literalValue_def)
      from pf Nil m v show ?thesis by simp
    next
      case (Cons c' rest')
      have "\<not> isDigit c'"
        using Cons hd_dropWhile [of isDigit r'] by (metis list.sel(1) list.distinct(1))
      moreover have "c' \<in> set d"
        by (subst d2) (simp add: Cons)
      then have "digitOrDot c'"
        using assms by (simp add: list_all_iff)
      ultimately have c': "c' = CHR ''.''" by (simp add: digitOrDot_def)
      have "length (filter (\<lambda>c. c = CHR ''.'') d) \<ge> 2"
        by (subst d2) (simp add: Cons c')
      then have "malformed d" by (simp add: malformed_def)
      with pf Cons show ?thesis by simp
    qed
  qed
qed

lemma float32_fst:
  "fst (case float32 x of PosInf \<Rightarrow> (PosInf, True) | Finite v \<Rightarrow> (Finite v, False)) = float32 x"
  by (cases "float32 x") simp_all

lemma float32_snd:
  "snd (case float32 x of PosInf \<Rightarrow> (PosInf, True) | Finite v \<Rightarrow> (Finite v, False))
     = (float32 x = PosInf)"
  by (cases "float32 x") simp_all

lemma classify_TestFinished_literal:
  "classify input = TestFinished st n d \<Longrightarrow> d \<noteq> [] \<and> list_all digitOrDot d"
  unfolding classify_def testFinishPattern_def Let_def
  by (auto split: if_splits option.splits prod.splits simp: list_all_iff dest: set_takeWhileD)

lemma run_runEvents: "run ov s inputs = runEvents ov s (map classify inputs)"
  by (induction inputs arbitrary: s) (auto simp: step_def split: sum.splits)

text \<open>
  C8 (as amended): a finish line for a test of the buffer is always processed normally
  and prints nothing, whatever its duration literal (a non-empty string of digits and
  dots). When the literal is malformed (more than one dot, or no digit) the parse fails
  and the duration is set to 0. When it is a decimal numeral the duration is set to the
  binary32 value nearest to it; the parse then fails exactly when that value overflows,
  and the duration is then infinite, not 0.
\<close>

theorem malformed_duration:
  assumes "classify input = TestFinished st n d"
    and "findTest n (packageTestBuffer s) = Some i"
  shows "d \<noteq> [] \<and> list_all digitOrDot d
         \<and> (\<exists>s'. step ov s input = Inr s' \<and> run ov s (input # rest) = run ov s' rest
               \<and> stdout s' = stdout s
               \<and> (malformed d \<longrightarrow>
                     snd (ParseFloat32 d) \<and> durationSec (packageTestBuffer s' ! i) = Finite 0)
               \<and> (\<not> malformed d \<longrightarrow>
                     durationSec (packageTestBuffer s' ! i) = float32 (literalValue d)
                     \<and> (snd (ParseFloat32 d) \<longleftrightarrow> float32 (literalValue d) = PosInf)))"
proof -
  from classify_TestFinished_literal [OF assms(1)]
  have g: "d \<noteq> []" "list_all digitOrDot d" by simp_all
  from findTest_Some [OF assms(2)] have len: "i < length (packageTestBuffer s)" by simp
  let ?s' = "s\<lparr>packageTestBuffer :=
                (packageTestBuffer s)
                  [i := (packageTestBuffer s ! i)
                          \<lparr>status := st, durationSec := fst (ParseFloat32 d)\<rparr>],
              capturingTest := (if st = ''FAIL'' then Some i else capturingTest s)\<rparr>"
  have st: "step ov s input = Inr ?s'"
    using assms by (simp add: step_def)
  then have r: "run ov s (input # rest) = run ov ?s' rest" by simp
  have du: "durationSec (packageTestBuffer ?s' ! i) = fst (ParseFloat32 d)"
    using len by simp
  have m: "malformed d \<longrightarrow> snd (ParseFloat32 d) \<and> fst (ParseFloat32 d) = Finite 0"
    by (simp add: ParseFloat32_grammar [OF g(2)])
  have w: "\<not> malformed d \<longrightarrow> fst (ParseFloat32 d) = float32 (literalValue d)
             \<and> (snd (ParseFloat32 d) \<longleftrightarrow> float32 (literalValue d) = PosInf)"
    by (simp add: ParseFloat32_grammar [OF g(2)] float32_fst float32_snd)
  have "step ov s input = Inr ?s' \<and> run ov s (input # rest) = run ov ?s' rest
               \<and> stdout ?s' = stdout s
               \<and> (malformed d \<longrightarrow>
                     snd (ParseFloat32 d) \<and> durationSec (packageTestBuffer ?s' ! i) = Finite 0)
               \<and> (\<not> malformed d \<longrightarrow>
                     durationSec (packageTestBuffer ?s' ! i) = float32 (literalValue d)
                     \<and> (snd (ParseFloat32 d) \<longleftrightarrow> float32 (literalValue d) = PosInf))"
    using st r m w unfolding du by simp
  then show ?thesis using g by blast
qed

theorem malformed_duration_witness:
  "classify ''--- SKIP: T (1.2.3s)'' = TestFinished ''SKIP'' ''T'' ''1.2.3''
   \<and> findTest ''T'' [\<lparr>name = ''T'', status = [], output = [], durationSec = Finite 0\<rparr>] = Some 0
   \<and> malformed ''1.2.3''
   \<and> step 0 \<lparr>packageTestBuffer =
                [\<lparr>name = ''T'', status = [], output = [], durationSec = Finite 0\<rparr>],
              capturingTest = None, stdout = []\<rparr> ''--- SKIP: T (1.2.3s)''
       = Inr \<lparr>packageTestBuffer =
                [\<lparr>name = ''T'', status = ''SKIP'', output = [], durationSec = Finite 0\<rparr>],
              capturingTest = None, stdout = []\<rparr>
   \<and> classify ''--- PASS: T (0.25s)'' = TestFinished ''PASS'' ''T'' ''0.25''
   \<and> \<not> malformed ''0.25''
   \<and> float32 (literalValue ''0.25'') = Finite (1 / 4)
   \<and> step 0 \<lparr>packageTestBuffer =
                [\<lparr>name = ''T'', status = [], output = [], durationSec = Finite 0\<rparr>],
              capturingTest = None, stdout = []\<rparr> ''--- PASS: T (0.25s)''
       = Inr \<lparr>packageTestBuffer =
                [\<lparr>name = ''T'', status = ''PASS'', output = [], durationSec = Finite (1 / 4)\<rparr>],
              capturingTest = None, stdout = []\<rparr>"
proof -
  let ?s = "\<lparr>packageTestBuffer =
                [\<lparr>name = ''T'', status = [], output = [], durationSec = Finite 0\<rparr>],
              capturingTest = None, stdout = []\<rparr>"
  have a: "classify ''--- SKIP: T (1.2.3s)'' = TestFinished ''SKIP'' ''T'' ''1.2.3''"
    and a': "classify ''--- PASS: T (0.25s)'' = TestFinished ''PASS'' ''T'' ''0.25''"
    by code_simp+
  have b: "findTest ''T'' (packageTestBuffer ?s) = Some 0"
    by simp
  have m: "malformed ''1.2.3''" and m': "\<not> malformed ''0.25''"
    by code_simp+
  have v: "float32 (literalValue ''0.25'') = Finite (1 / 4)"
    by code_simp
  from malformed_duration [OF a b, of 0 "[]"] m
  have 1: "\<exists>s'. step 0 ?s ''--- SKIP: T (1.2.3s)'' = Inr s'
             \<and> durationSec (packageTestBuffer s' ! 0) = Finite 0"
    by auto
  have 2: "step 0 ?s ''--- SKIP: T (1.2.3s)''
       = Inr \<lparr>packageTestBuffer =
                [\<lparr>name = ''T'', status = ''SKIP'', output = [], durationSec = Finite 0\<rparr>],
              capturingTest = None, stdout = []\<rparr>"
    using 1 a by (auto simp: step_def)
  from malformed_duration [OF a' b, of 0 "[]"] m' v
  have 3: "\<exists>s'. step 0 ?s ''--- PASS: T (0.25s)'' = Inr s'
             \<and> durationSec (packageTestBuffer s' ! 0) = Finite (1 / 4)"
    by auto
  have 4: "step 0 ?s ''--- PASS: T (0.25s)''
       = Inr \<lparr>packageTestBuffer =
                [\<lparr>name = ''T'', status = ''PASS'', output = [], durationSec = Finite (1 / 4)\<rparr>],
              capturingTest = None, stdout = []\<rparr>"
    using 3 a' by (auto simp: step_def)
  from a b m 2 a' m' v 4 show ?thesis by simp
qed

text \<open>
  The claim as stated fails: a literal of forty digits matches the duration pattern and
  fails to parse (range error), and the duration becomes infinite.
\<close>

theorem malformed_duration_counterexample:
  "classify ''--- PASS: T (1000000000000000000000000000000000000000s)''
     = TestFinished ''PASS'' ''T'' ''1000000000000000000000000000000000000000''
   \<and> ParseFloat32 ''1000000000000000000000000000000000000000'' = (PosInf, True)
   \<and> main 0 [''=== RUN T'', ''--- PASS: T (1000000000000000000000000000000000000000s)'']
       = Inr \<lparr>packageTestBuffer =
                [\<lparr>name = ''T'', status = ''PASS'', output = [], durationSec = PosInf\<rparr>],
              capturingTest = None, stdout = []\<rparr>"
  by code_simp

subsection \<open>Started, finished, reported\<close>

lemma runEvents_append:
  "runEvents ov s (es @ es') =
     (case runEvents ov s es of Inl err \<Rightarrow> Inl err | Inr s' \<Rightarrow> runEvents ov s' es')"
  by (induction es arbitrary: s) (auto split: sum.splits)

lemma runEvents_started:
  "runEvents ov s (map TestStarted ns) =
     Inr (s\<lparr>capturingTest := (if ns = [] then capturingTest s else None),
            packageTestBuffer := packageTestBuffer s @ map newTestResult ns\<rparr>)"
  by (induction ns arbitrary: s) auto

lemma name_applyFinish: "name (applyFinish fs t) = name t"
  by (auto simp: applyFinish_def split: option.splits)

lemma findTest_distinct:
  "distinct (map name buf) \<Longrightarrow> findTest n buf = Some i \<Longrightarrow> j < length buf \<Longrightarrow>
     name (buf ! j) = n \<Longrightarrow> j = i"
  using findTest_Some [of n buf i]
  by (metis distinct_conv_nth length_map nth_map)

lemma runEvents_finished:
  assumes "distinct (map name buf)" and "distinct (map fst fs)"
    and "fst ` set fs \<subseteq> name ` set buf"
  shows "\<exists>c. runEvents ov \<lparr>packageTestBuffer = buf, capturingTest = c0, stdout = out\<rparr>
                 (map finished fs)
              = Inr \<lparr>packageTestBuffer = map (applyFinish fs) buf, capturingTest = c,
                     stdout = out\<rparr>"
  using assms
proof (induction fs arbitrary: buf c0)
  case Nil
  have "map (applyFinish []) buf = buf"
    by (simp add: applyFinish_def map_idI)
  then show ?case by simp
next
  case (Cons f fs)
  obtain n st d where f: "f = (n, st, d)" by (cases f)
  from Cons.prems(3) f have "n \<in> name ` set buf" by simp
  then obtain i where i: "findTest n buf = Some i"
    using findTest_None [of n buf] by (cases "findTest n buf") auto
  from findTest_Some [OF i] have len: "i < length buf" and ni: "name (buf ! i) = n" by simp_all
  let ?t = "(buf ! i)\<lparr>status := st, durationSec := fst (ParseFloat32 d)\<rparr>"
  let ?buf = "buf[i := ?t]"
  have names: "map name ?buf = map name buf"
    by (simp add: map_update map_update_same)
  then have d1: "distinct (map name ?buf)" using Cons.prems(1) by simp
  from Cons.prems(2) have d2: "distinct (map fst fs)" and nn: "n \<notin> fst ` set fs"
    by (simp_all add: f)
  have sub: "fst ` set fs \<subseteq> name ` set ?buf"
  proof -
    have "name ` set ?buf = set (map name ?buf)" by simp
    also have "\<dots> = name ` set buf" unfolding names by simp
    finally show ?thesis using Cons.prems(3) by simp
  qed
  from Cons.IH [OF d1 d2 sub, of "if st = ''FAIL'' then Some i else c0"]
  obtain c where c: "runEvents ov \<lparr>packageTestBuffer = ?buf,
        capturingTest = (if st = ''FAIL'' then Some i else c0), stdout = out\<rparr> (map finished fs)
      = Inr \<lparr>packageTestBuffer = map (applyFinish fs) ?buf, capturingTest = c, stdout = out\<rparr>"
    by blast
  have eq: "map (applyFinish fs) ?buf = map (applyFinish (f # fs)) buf"
  proof (rule nth_equalityI)
    show "length (map (applyFinish fs) ?buf) = length (map (applyFinish (f # fs)) buf)"
      by simp
  next
    fix j assume "j < length (map (applyFinish fs) ?buf)"
    then have j: "j < length buf" by simp
    show "map (applyFinish fs) ?buf ! j = map (applyFinish (f # fs)) buf ! j"
    proof (cases "j = i")
      case True
      from nn have "map_of fs n = None" by (simp add: map_of_eq_None_iff)
      with True j ni show ?thesis
        by (simp add: applyFinish_def f)
    next
      case False
      with findTest_distinct [OF Cons.prems(1) i j] have "name (buf ! j) \<noteq> n" by blast
      with False j show ?thesis
        by (simp add: applyFinish_def f)
    qed
  qed
  have ff: "finished f = TestFinished st n d"
    by (simp add: finished_def f)
  from i c show ?case
    by (auto simp: ff eq)
qed

lemma applyFinish_new:
  assumes "map_of fs n = Some (st, d)"
  shows "applyFinish fs (newTestResult n)
           = \<lparr>name = n, status = st, output = [], durationSec = fst (ParseFloat32 d)\<rparr>"
  using assms by (simp add: applyFinish_def newTestResult_def)

lemma failureMessage_Nil: "failureMessage [] = []"
  by (simp add: failureMessage_def TrimSpace_def TrimRightSpace.simps [of "[]"])

lemma flush_finished:
  assumes "st = ''PASS'' \<or> st = ''FAIL'' \<or> st = ''SKIP''"
    and "list_all digitOrDot d" and "\<not> malformed d"
  shows "flush ov \<lparr>name = n, status = st, output = [], durationSec = fst (ParseFloat32 d)\<rparr>
           = testBlock ov (n, st, d)"
proof -
  have "fst (ParseFloat32 d) = float32 (literalValue d)"
    using assms(2,3) by (simp add: ParseFloat32_grammar float32_fst)
  with assms(1) show ?thesis
    by (auto simp: flush_def testBlock_def failureMessage_Nil)
qed

text \<open>
  C4 (as amended): start events for tests with distinct names, then one finish event for
  each of them in any order (status PASS, FAIL or SKIP, duration a decimal numeral such
  as D.DD), then one package-finish event, and nothing else, in the events or in input
  lines classified as these events: the output is exactly one suite block with
  one test block per test, in the order of the start events, each with the line for its
  status and a duration attribute equal to the integer part of 1000 times the binary32
  value nearest to the literal (the product taken in binary64).
\<close>

theorem started_finished_report:
  assumes "distinct (map fst tests)"
    and "set fs = set tests" and "distinct (map fst fs)"
    and "\<forall>(n, st, d) \<in> set tests.
            (st = ''PASS'' \<or> st = ''FAIL'' \<or> st = ''SKIP'')
            \<and> list_all digitOrDot d \<and> \<not> malformed d"
  shows "runEvents ov initial
           (map (\<lambda>t. TestStarted (fst t)) tests @ map finished fs @ [PackageFinished pkg])
         = Inr \<lparr>packageTestBuffer = [], capturingTest = None,
                stdout = testSuiteStartedLine pkg @ concat (map (testBlock ov) tests)
                           @ testSuiteFinishedLine pkg\<rparr>
         \<and> (\<forall>inputs.
               map classify inputs
                 = map (\<lambda>t. TestStarted (fst t)) tests @ map finished fs @ [PackageFinished pkg]
               \<longrightarrow> main ov inputs
                 = Inr \<lparr>packageTestBuffer = [], capturingTest = None,
                        stdout = testSuiteStartedLine pkg @ concat (map (testBlock ov) tests)
                                   @ testSuiteFinishedLine pkg\<rparr>)"
proof -
  let ?ns = "map fst tests"
  let ?buf = "map (\<lambda>t. newTestResult (fst t)) tests"
  have s1: "runEvents ov initial (map (\<lambda>t. TestStarted (fst t)) tests)
              = Inr \<lparr>packageTestBuffer = ?buf, capturingTest = None, stdout = []\<rparr>"
    using runEvents_started [of ov initial ?ns]
    by (simp add: initial_def comp_def)
  have nb: "map name ?buf = ?ns"
    by (simp add: newTestResult_def comp_def)
  have d1: "distinct (map name ?buf)" unfolding nb using assms(1) .
  have sub: "fst ` set fs \<subseteq> name ` set ?buf"
  proof -
    have "name ` set ?buf = set (map name ?buf)" by (simp only: set_map)
    also have "\<dots> = fst ` set tests" unfolding nb by simp
    finally show ?thesis using assms(2) by simp
  qed
  from runEvents_finished [OF d1 assms(3) sub, of ov None "[]"]
  obtain c where s2: "runEvents ov \<lparr>packageTestBuffer = ?buf, capturingTest = None, stdout = []\<rparr>
                 (map finished fs)
              = Inr \<lparr>packageTestBuffer = map (applyFinish fs) ?buf, capturingTest = c,
                     stdout = []\<rparr>"
    by blast
  have fl: "map (flush ov) (map (applyFinish fs) ?buf) = map (testBlock ov) tests"
  proof -
    have "flush ov (applyFinish fs (newTestResult (fst t))) = testBlock ov t"
      if t: "t \<in> set tests" for t
    proof -
      obtain n st d where tt: "t = (n, st, d)" by (cases t)
      with t assms(2) have "(n, st, d) \<in> set fs" by simp
      with assms(3) have "map_of fs n = Some (st, d)" by simp
      from applyFinish_new [OF this] tt
      have "applyFinish fs (newTestResult (fst t))
              = \<lparr>name = n, status = st, output = [], durationSec = fst (ParseFloat32 d)\<rparr>"
        by simp
      moreover from assms(4) t tt
      have "st = ''PASS'' \<or> st = ''FAIL'' \<or> st = ''SKIP''" "list_all digitOrDot d"
        "\<not> malformed d"
        by auto
      ultimately show ?thesis
        using flush_finished [of st d ov n] tt by simp
    qed
    then show ?thesis by (simp add: comp_def)
  qed
  have "runEvents ov initial
           (map (\<lambda>t. TestStarted (fst t)) tests @ map finished fs @ [PackageFinished pkg])
         = Inr \<lparr>packageTestBuffer = [], capturingTest = None,
                stdout = testSuiteStartedLine pkg
                           @ concat (map (flush ov) (map (applyFinish fs) ?buf))
                           @ testSuiteFinishedLine pkg\<rparr>"
    by (simp add: runEvents_append s1 s2 flushPackage_def flushAll_concat del: map_map)
  then have "runEvents ov initial
           (map (\<lambda>t. TestStarted (fst t)) tests @ map finished fs @ [PackageFinished pkg])
         = Inr \<lparr>packageTestBuffer = [], capturingTest = None,
                stdout = testSuiteStartedLine pkg @ concat (map (testBlock ov) tests)
                           @ testSuiteFinishedLine pkg\<rparr>"
    unfolding fl by (simp add: comp_def)
  then show ?thesis
    by (simp add: main_def run_runEvents)
qed

theorem started_finished_report_witness:
  "distinct (map fst [(''T1'', ''PASS'', ''0.01''), (''T2'', ''FAIL'', ''0.02''),
                      (''T3'', ''SKIP'', ''0.05'')])
   \<and> set [(''T3'', ''SKIP'', ''0.05''), (''T1'', ''PASS'', ''0.01''), (''T2'', ''FAIL'', ''0.02'')]
       = set [(''T1'', ''PASS'', ''0.01''), (''T2'', ''FAIL'', ''0.02''),
              (''T3'', ''SKIP'', ''0.05'')]
   \<and> main 0
         [''=== RUN T1'', ''=== RUN T2'', ''=== RUN T3'', ''--- SKIP: T3 (0.05s)'',
          ''--- PASS: T1 (0.01s)'', ''--- FAIL: T2 (0.02s)'', ''ok  pkg 0.08s'']
       = Inr \<lparr>packageTestBuffer = [], capturingTest = None,
              stdout =
                ''##teamcity[testSuiteStarted name='' @ sq @ ''pkg'' @ sq @ '']'' @ nl
                @ ''##teamcity[testStarted name='' @ sq @ ''T1'' @ sq @ '' captureStandardOutput=''
                  @ sq @ ''true'' @ sq @ '']'' @ nl
                @ ''##teamcity[testFinished name='' @ sq @ ''T1'' @ sq @ '' duration='' @ sq
                  @ ''9'' @ sq @ '']'' @ nl
                @ ''##teamcity[testStarted name='' @ sq @ ''T2'' @ sq @ '' captureStandardOutput=''
                  @ sq @ ''true'' @ sq @ '']'' @ nl
                @ ''##teamcity[testFailed name='' @ sq @ ''T2'' @ sq @ '' message='' @ sq @ sq
                  @ '']'' @ nl
                @ ''##teamcity[testFinished name='' @ sq @ ''T2'' @ sq @ '' duration='' @ sq
                  @ ''19'' @ sq @ '']'' @ nl
                @ ''##teamcity[testStarted name='' @ sq @ ''T3'' @ sq @ '' captureStandardOutput=''
                  @ sq @ ''true'' @ sq @ '']'' @ nl
                @ ''##teamcity[testIgnored name='' @ sq @ ''T3'' @ sq @ '']'' @ nl
                @ ''##teamcity[testFinished name='' @ sq @ ''T3'' @ sq @ '' duration='' @ sq
                  @ ''50'' @ sq @ '']'' @ nl
                @ ''##teamcity[testSuiteFinished name='' @ sq @ ''pkg'' @ sq @ '']'' @ nl\<rparr>"
proof -
  let ?tests = "[(''T1'', ''PASS'', ''0.01''), (''T2'', ''FAIL'', ''0.02''),
                 (''T3'', ''SKIP'', ''0.05'')]"
  let ?fs = "[(''T3'', ''SKIP'', ''0.05''), (''T1'', ''PASS'', ''0.01''),
              (''T2'', ''FAIL'', ''0.02'')]"
  have a: "distinct (map fst ?tests)" by simp
  have b: "set ?fs = set ?tests" by auto
  have c: "distinct (map fst ?fs)" by simp
  have g: "list_all digitOrDot ''0.01''" "list_all digitOrDot ''0.02''"
    "list_all digitOrDot ''0.05''" "\<not> malformed ''0.01''" "\<not> malformed ''0.02''"
    "\<not> malformed ''0.05''"
    by code_simp+
  have d: "\<forall>(n, st, d) \<in> set ?tests.
            (st = ''PASS'' \<or> st = ''FAIL'' \<or> st = ''SKIP'')
            \<and> list_all digitOrDot d \<and> \<not> malformed d"
    using g by simp
  have bl: "testSuiteStartedLine ''pkg'' @ concat (map (testBlock 0) ?tests)
              @ testSuiteFinishedLine ''pkg'' =
                ''##teamcity[testSuiteStarted name='' @ sq @ ''pkg'' @ sq @ '']'' @ nl
                @ ''##teamcity[testStarted name='' @ sq @ ''T1'' @ sq @ '' captureStandardOutput=''
                  @ sq @ ''true'' @ sq @ '']'' @ nl
                @ ''##teamcity[testFinished name='' @ sq @ ''T1'' @ sq @ '' duration='' @ sq
                  @ ''9'' @ sq @ '']'' @ nl
                @ ''##teamcity[testStarted name='' @ sq @ ''T2'' @ sq @ '' captureStandardOutput=''
                  @ sq @ ''true'' @ sq @ '']'' @ nl
                @ ''##teamcity[testFailed name='' @ sq @ ''T2'' @ sq @ '' message='' @ sq @ sq
                  @ '']'' @ nl
                @ ''##teamcity[testFinished name='' @ sq @ ''T2'' @ sq @ '' duration='' @ sq
                  @ ''19'' @ sq @ '']'' @ nl
                @ ''##teamcity[testStarted name='' @ sq @ ''T3'' @ sq @ '' captureStandardOutput=''
                  @ sq @ ''true'' @ sq @ '']'' @ nl
                @ ''##teamcity[testIgnored name='' @ sq @ ''T3'' @ sq @ '']'' @ nl
                @ ''##teamcity[testFinished name='' @ sq @ ''T3'' @ sq @ '' duration='' @ sq
                  @ ''50'' @ sq @ '']'' @ nl
                @ ''##teamcity[testSuiteFinished name='' @ sq @ ''pkg'' @ sq @ '']'' @ nl"
    by code_simp
  have cl: "map classify
         [''=== RUN T1'', ''=== RUN T2'', ''=== RUN T3'', ''--- SKIP: T3 (0.05s)'',
          ''--- PASS: T1 (0.01s)'', ''--- FAIL: T2 (0.02s)'', ''ok  pkg 0.08s'']
       = map (\<lambda>t. TestStarted (fst t)) ?tests @ map finished ?fs @ [PackageFinished ''pkg'']"
    by code_simp
  from started_finished_report [OF a b c d, of 0 "''pkg''"] cl
  have "main 0
         [''=== RUN T1'', ''=== RUN T2'', ''=== RUN T3'', ''--- SKIP: T3 (0.05s)'',
          ''--- PASS: T1 (0.01s)'', ''--- FAIL: T2 (0.02s)'', ''ok  pkg 0.08s'']
       = Inr \<lparr>packageTestBuffer = [], capturingTest = None,
              stdout = testSuiteStartedLine ''pkg'' @ concat (map (testBlock 0) ?tests)
              @ testSuiteFinishedLine ''pkg''\<rparr>"
    by blast
  then show ?thesis
    unfolding bl using a b by simp
qed

text \<open>
  The claim as stated fails: for 0.02s the duration printed is 19, while 0.02 * 1000
  is 20, rounded or truncated.
\<close>

theorem started_finished_report_counterexample:
  "main 0 [''=== RUN T'', ''--- PASS: T (0.02s)'', ''ok  pkg 0.02s'']
     = Inr \<lparr>packageTestBuffer = [], capturingTest = None,
            stdout =
              ''##teamcity[testSuiteStarted name='' @ sq @ ''pkg'' @ sq @ '']'' @ nl
              @ ''##teamcity[testStarted name='' @ sq @ ''T'' @ sq @ '' captureStandardOutput=''
                @ sq @ ''true'' @ sq @ '']'' @ nl
              @ ''##teamcity[testFinished name='' @ sq @ ''T'' @ sq @ '' duration='' @ sq @ ''19''
                @ sq @ '']'' @ nl
              @ ''##teamcity[testSuiteFinished name='' @ sq @ ''pkg'' @ sq @ '']'' @ nl\<rparr>
   \<and> literalValue ''0.02'' = 2 / 100
   \<and> round (literalValue ''0.02'' * 1000) = 20
   \<and> \<lfloor>literalValue ''0.02'' * 1000\<rfloor> = 20"
  by code_simp

subsection \<open>The escaper, character by character\<close>

lemma of_char_of_int: "0 \<le> a \<Longrightarrow> a < 256 \<Longrightarrow> (of_char (char_of a :: char) :: int) = a"
  by (simp add: of_char_of)

lemma char_of_eq:
  fixes a :: int
  assumes "0 \<le> a" "a < 256"
  shows "(char_of a = c) = (a = of_char c)"
  using of_char_of_int [OF assms] by auto

lemma add_mod_trivial:
  fixes a :: int
  assumes "0 \<le> a" "a < n"
  shows "(k * n + a) mod n = a"
  using assms by simp

lemma split3:
  fixes r :: int
  shows "r = 4096 * (r div 4096) + 64 * (r div 64 mod 64) + r mod 64"
proof -
  have "r mod (64 * 64) = 64 * (r div 64 mod 64) + r mod 64"
    by (rule zmod_zmult2_eq) simp
  moreover have "r = 4096 * (r div 4096) + r mod 4096" by simp
  ultimately show ?thesis by simp
qed

lemma split4:
  fixes r :: int
  shows "r = 262144 * (r div 262144) + 4096 * (r div 4096 mod 64) + 64 * (r div 64 mod 64)
             + r mod 64"
proof -
  have "r mod (4096 * 64) = 4096 * (r div 4096 mod 64) + r mod 4096"
    by (rule zmod_zmult2_eq) simp
  moreover have "r mod (64 * 64) = 64 * (r div 64 mod 64) + r mod 64"
    by (rule zmod_zmult2_eq) simp
  moreover have "r = 262144 * (r div 262144) + r mod 262144" by simp
  ultimately show ?thesis by simp
qed

lemma DecodeRune_1:
  fixes s0 :: int
  assumes "of_char c0 = s0" "s0 < 0x80"
  shows "DecodeRune (c0 # rest) = (s0, 1)"
  using assms by simp

lemma DecodeRune_2:
  fixes s0 s1 :: int
  assumes "of_char c0 = s0" "0xC2 \<le> s0" "s0 < 0xE0"
    and "of_char c1 = s1" "0x80 \<le> s1" "s1 \<le> 0xBF"
  shows "DecodeRune (c0 # c1 # rest) = ((s0 mod 32) * 64 + s1 mod 64, 2)"
  using assms by (auto simp: Let_def split: if_splits)

lemma DecodeRune_3:
  fixes s0 s1 s2 :: int
  assumes "of_char c0 = s0" "0xE0 \<le> s0" "s0 < 0xF0"
    and "of_char c1 = s1" "(if s0 = 0xE0 then 0xA0 else 0x80) \<le> s1"
      "s1 \<le> (if s0 = 0xED then 0x9F else 0xBF)"
    and "of_char c2 = s2" "0x80 \<le> s2" "s2 \<le> 0xBF"
  shows "DecodeRune (c0 # c1 # c2 # rest)
           = ((s0 mod 16) * 4096 + (s1 mod 64) * 64 + s2 mod 64, 3)"
  using assms by (auto simp: Let_def split: if_splits)

lemma DecodeRune_4:
  fixes s0 s1 s2 s3 :: int
  assumes "of_char c0 = s0" "0xF0 \<le> s0" "s0 \<le> 0xF4"
    and "of_char c1 = s1" "(if s0 = 0xF0 then 0x90 else 0x80) \<le> s1"
      "s1 \<le> (if s0 = 0xF4 then 0x8F else 0xBF)"
    and "of_char c2 = s2" "0x80 \<le> s2" "s2 \<le> 0xBF"
    and "of_char c3 = s3" "0x80 \<le> s3" "s3 \<le> 0xBF"
  shows "DecodeRune (c0 # c1 # c2 # c3 # rest)
           = ((s0 mod 8) * 262144 + (s1 mod 64) * 4096 + (s2 mod 64) * 64 + s3 mod 64, 4)"
  using assms by (auto simp: Let_def split: if_splits)

lemma decode2:
  assumes "0x80 \<le> r" "r < 0x800"
  shows "DecodeRune (char_of (0xC0 + r div 64) # char_of (0x80 + r mod 64) # rest) = (r, 2)"
proof -
  define a b where "a = r div 64" and "b = r mod 64"
  have r: "r = 64 * a + b" and b: "0 \<le> b" "b < 64"
    unfolding a_def b_def by simp_all
  from assms r b have a: "2 \<le> a" "a < 32" by linarith+
  have s0: "(of_char (char_of (0xC0 + a) :: char) :: int) = 0xC0 + a"
    and s1: "(of_char (char_of (0x80 + b) :: char) :: int) = 0x80 + b"
    using a b by (simp_all add: of_char_of_int)
  have m0: "(0xC0 + a) mod 32 = a" using add_mod_trivial [of a 32 6] a by simp
  have m1: "(0x80 + b) mod 64 = b" using add_mod_trivial [of b 64 2] b by simp
  have "DecodeRune (char_of (0xC0 + a) # char_of (0x80 + b) # rest)
          = (((0xC0 + a) mod 32) * 64 + (0x80 + b) mod 64, 2)"
    by (rule DecodeRune_2 [OF s0 _ _ s1]) (use a b in simp_all)
  then show ?thesis
    unfolding m0 m1 a_def [symmetric] b_def [symmetric] using r by (simp add: mult.commute)
qed

lemma decode3:
  assumes "0x800 \<le> r" "r < 0x10000" "\<not> (0xD800 \<le> r \<and> r \<le> 0xDFFF)"
  shows "DecodeRune (char_of (0xE0 + r div 4096) # char_of (0x80 + r div 64 mod 64)
                       # char_of (0x80 + r mod 64) # rest) = (r, 3)"
proof -
  define a b c where "a = r div 4096" and "b = r div 64 mod 64" and "c = r mod 64"
  have r: "r = 4096 * a + 64 * b + c"
    unfolding a_def b_def c_def by (rule split3)
  have b: "0 \<le> b" "b < 64" and c: "0 \<le> c" "c < 64"
    unfolding b_def c_def by simp_all
  from assms r b c have a: "0 \<le> a" "a < 16" and a0: "a = 0 \<Longrightarrow> 32 \<le> b"
    and a13: "a = 13 \<Longrightarrow> b < 32"
    by linarith+
  have s0: "(of_char (char_of (0xE0 + a) :: char) :: int) = 0xE0 + a"
    and s1: "(of_char (char_of (0x80 + b) :: char) :: int) = 0x80 + b"
    and s2: "(of_char (char_of (0x80 + c) :: char) :: int) = 0x80 + c"
    using a b c by (simp_all add: of_char_of_int)
  have m0: "(0xE0 + a) mod 16 = a" using add_mod_trivial [of a 16 14] a by simp
  have m1: "(0x80 + b) mod 64 = b" using add_mod_trivial [of b 64 2] b by simp
  have m2: "(0x80 + c) mod 64 = c" using add_mod_trivial [of c 64 2] c by simp
  have "DecodeRune (char_of (0xE0 + a) # char_of (0x80 + b) # char_of (0x80 + c) # rest)
          = (((0xE0 + a) mod 16) * 4096 + ((0x80 + b) mod 64) * 64 + (0x80 + c) mod 64, 3)"
    by (rule DecodeRune_3 [OF s0 _ _ s1 _ _ s2]) (use a b c a0 a13 in auto)
  then show ?thesis
    unfolding m0 m1 m2 a_def [symmetric] b_def [symmetric] c_def [symmetric]
    using r by (simp add: mult.commute)
qed

lemma decode4:
  assumes "0x10000 \<le> r" "r \<le> 0x10FFFF"
  shows "DecodeRune (char_of (0xF0 + r div 262144) # char_of (0x80 + r div 4096 mod 64)
                       # char_of (0x80 + r div 64 mod 64) # char_of (0x80 + r mod 64) # rest)
           = (r, 4)"
proof -
  define a b c d where "a = r div 262144" and "b = r div 4096 mod 64"
    and "c = r div 64 mod 64" and "d = r mod 64"
  have r: "r = 262144 * a + 4096 * b + 64 * c + d"
    unfolding a_def b_def c_def d_def by (rule split4)
  have b: "0 \<le> b" "b < 64" and c: "0 \<le> c" "c < 64" and d: "0 \<le> d" "d < 64"
    unfolding b_def c_def d_def by simp_all
  from assms r b c d have a: "0 \<le> a" "a \<le> 4" and a0: "a = 0 \<Longrightarrow> 16 \<le> b"
    and a4: "a = 4 \<Longrightarrow> b < 16"
    by linarith+
  have s0: "(of_char (char_of (0xF0 + a) :: char) :: int) = 0xF0 + a"
    and s1: "(of_char (char_of (0x80 + b) :: char) :: int) = 0x80 + b"
    and s2: "(of_char (char_of (0x80 + c) :: char) :: int) = 0x80 + c"
    and s3: "(of_char (char_of (0x80 + d) :: char) :: int) = 0x80 + d"
    using a b c d by (simp_all add: of_char_of_int)
  have m0: "(0xF0 + a) mod 8 = a" using add_mod_trivial [of a 8 30] a by simp
  have m1: "(0x80 + b) mod 64 = b" using add_mod_trivial [of b 64 2] b by simp
  have m2: "(0x80 + c) mod 64 = c" using add_mod_trivial [of c 64 2] c by simp
  have m3: "(0x80 + d) mod 64 = d" using add_mod_trivial [of d 64 2] d by simp
  have "DecodeRune (char_of (0xF0 + a) # char_of (0x80 + b) # char_of (0x80 + c)
                      # char_of (0x80 + d) # rest)
          = (((0xF0 + a) mod 8) * 262144 + ((0x80 + b) mod 64) * 4096
               + ((0x80 + c) mod 64) * 64 + (0x80 + d) mod 64, 4)"
    by (rule DecodeRune_4 [OF s0 _ _ s1 _ _ s2 _ _ s3]) (use a b c d a0 a4 in auto)
  then show ?thesis
    unfolding m0 m1 m2 m3 a_def [symmetric] b_def [symmetric] c_def [symmetric]
      d_def [symmetric]
    using r by (simp add: mult.commute)
qed

lemma DecodeRune_EncodeRune:
  assumes "validRune r"
  shows "DecodeRune (EncodeRune r @ rest) = (r, length (EncodeRune r))"
proof -
  from assms have v: "0 \<le> r" "r \<le> 0x10FFFF" "\<not> (0xD800 \<le> r \<and> r \<le> 0xDFFF)"
    by (simp_all add: validRune_def)
  consider "r < 0x80" | "0x80 \<le> r" "r < 0x800" | "0x800 \<le> r" "r < 0x10000" | "0x10000 \<le> r"
    by linarith
  then show ?thesis
  proof cases
    case 1
    have "DecodeRune (char_of r # rest) = (r, 1)"
      by (rule DecodeRune_1) (use v 1 in \<open>simp_all add: of_char_of_int\<close>)
    with 1 show ?thesis by (simp add: EncodeRune_def)
  next
    case 2
    with decode2 [OF 2, of rest] show ?thesis by (simp add: EncodeRune_def)
  next
    case 3
    with decode3 [OF 3 v(3), of rest] show ?thesis by (simp add: EncodeRune_def)
  next
    case 4
    with decode4 [OF 4 v(2), of rest] show ?thesis by (simp add: EncodeRune_def)
  qed
qed

lemma replaceSpecial_append: "replaceSpecial (xs @ ys) = replaceSpecial xs @ replaceSpecial ys"
  by (simp add: replaceSpecial_def)

lemma replaceSpecial_id: "\<forall>c \<in> set s. \<not> specialChar c \<Longrightarrow> replaceSpecial s = s"
  by (induction s) (simp_all add: replaceSpecial_def)

lemma specialChar_low: "specialChar c \<Longrightarrow> (of_char c :: int) < 0x80"
  by (auto simp: specialChar_def)

lemma high_not_special:
  fixes y :: int
  assumes "0x80 \<le> y" "y < 256"
  shows "\<not> specialChar (char_of y)"
proof
  assume "specialChar (char_of y)"
  from specialChar_low [OF this] have "(of_char (char_of y :: char) :: int) < 0x80" .
  with of_char_of_int [of y] assms show False by simp
qed

lemma EncodeRune_not_special:
  assumes "0x80 \<le> r" "r \<le> 0x10FFFF"
  shows "\<forall>c \<in> set (EncodeRune r). \<not> specialChar c"
proof -
  have m: "\<And>x :: int. 0x80 \<le> 0x80 + x mod 64 \<and> 0x80 + x mod 64 < 256"
    by simp
  have r2: "r = 64 * (r div 64) + r mod 64" and r3: "r = 4096 * (r div 4096) + r mod 4096"
    and r4: "r = 262144 * (r div 262144) + r mod 262144"
    by simp_all
  have b2: "0 \<le> r mod 64" "r mod 64 < 64" and b3: "0 \<le> r mod 4096" "r mod 4096 < 4096"
    and b4: "0 \<le> r mod 262144" "r mod 262144 < 262144"
    by simp_all
  have l2: "r < 0x800 \<Longrightarrow> 0x80 \<le> 0xC0 + r div 64 \<and> 0xC0 + r div 64 < 256"
    using assms r2 b2 by linarith
  have l3: "r < 0x10000 \<Longrightarrow> 0x80 \<le> 0xE0 + r div 4096 \<and> 0xE0 + r div 4096 < 256"
    using assms r3 b3 by linarith
  have l4: "0x80 \<le> 0xF0 + r div 262144 \<and> 0xF0 + r div 262144 < 256"
    using assms r4 b4 by linarith
  have t: "\<not> specialChar (char_of (0x80 + x mod 64))" for x :: int
    using m [of x] high_not_special by blast
  have t2: "r < 0x800 \<Longrightarrow> \<not> specialChar (char_of (0xC0 + r div 64))"
    using l2 high_not_special by blast
  have t3: "r < 0x10000 \<Longrightarrow> \<not> specialChar (char_of (0xE0 + r div 4096))"
    using l3 high_not_special by blast
  have t4: "\<not> specialChar (char_of (0xF0 + r div 262144))"
    using l4 high_not_special by blast
  show ?thesis
    using assms t t2 t3 t4 by (simp add: EncodeRune_def)
qed

lemma char_of_special:
  "char_of (0x0A :: int) = CHR 0x0A" "char_of (0x0D :: int) = CHR 0x0D"
  "char_of (0x5B :: int) = CHR 0x5B" "char_of (0x5D :: int) = CHR 0x5D"
  "char_of (0x7C :: int) = CHR 0x7C" "char_of (0x27 :: int) = CHR 0x27"
  by (simp_all add: char_of_eq)

lemma EncodeRune_nonempty: "EncodeRune r \<noteq> []"
  by (simp add: EncodeRune_def)

lemma replaceNonAscii_EncodeRune:
  assumes "validRune r"
  shows "replaceNonAscii (EncodeRune r @ rest) =
           (if nonAsciiChar r then unicodeEscape (EncodeRune r) else EncodeRune r)
           @ replaceNonAscii rest"
proof -
  obtain c cs where e: "EncodeRune r = c # cs"
    using EncodeRune_nonempty [of r] by (cases "EncodeRune r") auto
  from DecodeRune_EncodeRune [OF assms, of rest]
  have d: "DecodeRune (c # cs @ rest) = (r, Suc (length cs))"
    by (simp add: e)
  show ?thesis
    unfolding e using d by simp
qed

lemma replaceNonAscii_ascii:
  assumes "0x20 < (of_char c :: int)" "(of_char c :: int) < 0x80"
  shows "replaceNonAscii (c # rest) = c # replaceNonAscii rest"
  using assms by (simp add: nonAsciiChar_def)

lemma escape_rune_step:
  assumes "validRune r"
  shows "replaceNonAscii (replaceSpecial (EncodeRune r) @ rest)
           = escapeRune r @ replaceNonAscii rest"
proof (cases "r < 0x80")
  case False
  with assms have h: "0x80 \<le> r" "r \<le> 0x10FFFF" by (simp_all add: validRune_def)
  from replaceSpecial_id [OF EncodeRune_not_special [OF h]]
  have "replaceSpecial (EncodeRune r) = EncodeRune r" .
  with replaceNonAscii_EncodeRune [OF assms, of rest] h show ?thesis
    by (simp add: escapeRune_def nonAsciiChar_def unicodeEscape_def)
next
  case True
  from assms have r0: "0 \<le> r" by (simp add: validRune_def)
  with True have r256: "r < 256" by simp
  have e: "EncodeRune r = [char_of r]" using True by (simp add: EncodeRune_def)
  have sp: "specialChar (char_of r)
              \<longleftrightarrow> r = 0x0A \<or> r = 0x0D \<or> r = 0x5B \<or> r = 0x5D \<or> r = 0x7C \<or> r = 0x27"
    by (simp add: specialChar_def char_of_eq [OF r0 r256])
  show ?thesis
  proof (cases "specialChar (char_of r)")
    case False
    then have "replaceSpecial (EncodeRune r) = EncodeRune r"
      by (simp add: e replaceSpecial_def)
    with replaceNonAscii_EncodeRune [OF assms, of rest] False sp True show ?thesis
      by (simp add: escapeRune_def nonAsciiChar_def unicodeEscape_def)
  next
    case sc: True
    then have rs: "replaceSpecial (EncodeRune r) = specEscape [char_of r]"
      by (simp add: e replaceSpecial_def)
    from sc sp consider "r = 0x0A" | "r = 0x0D" | "r = 0x5B" | "r = 0x5D" | "r = 0x7C"
      | "r = 0x27" by blast
    then show ?thesis
    proof cases
      case 1
      then have c: "char_of r = CHR 0x0A" by (simp add: char_of_special)
      have f1: "replaceSpecial (EncodeRune r) = ''|n''"
        unfolding rs c by (simp add: specEscape_def)
      have f2: "escapeRune r = ''|n''"
        unfolding escapeRune_def e c using 1 by simp
      show ?thesis
        unfolding f1 f2 by (simp add: nonAsciiChar_def)
    next
      case 2
      then have c: "char_of r = CHR 0x0D" by (simp add: char_of_special)
      have f1: "replaceSpecial (EncodeRune r) = ''|r''"
        unfolding rs c by (simp add: specEscape_def)
      have f2: "escapeRune r = ''|r''"
        unfolding escapeRune_def e c using 2 by simp
      show ?thesis
        unfolding f1 f2 by (simp add: nonAsciiChar_def)
    next
      case 3
      then have c: "char_of r = CHR 0x5B" by (simp add: char_of_special)
      have f1: "replaceSpecial (EncodeRune r) = [CHR ''|'', CHR 0x5B]"
        unfolding rs c by (simp add: specEscape_def)
      have f2: "escapeRune r = [CHR ''|'', CHR 0x5B]"
        unfolding escapeRune_def e c using 3 by simp
      show ?thesis
        unfolding f1 f2 by (simp add: nonAsciiChar_def)
    next
      case 4
      then have c: "char_of r = CHR 0x5D" by (simp add: char_of_special)
      have f1: "replaceSpecial (EncodeRune r) = [CHR ''|'', CHR 0x5D]"
        unfolding rs c by (simp add: specEscape_def)
      have f2: "escapeRune r = [CHR ''|'', CHR 0x5D]"
        unfolding escapeRune_def e c using 4 by simp
      show ?thesis
        unfolding f1 f2 by (simp add: nonAsciiChar_def)
    next
      case 5
      then have c: "char_of r = CHR 0x7C" by (simp add: char_of_special)
      have f1: "replaceSpecial (EncodeRune r) = [CHR ''|'', CHR 0x7C]"
        unfolding rs c by (simp add: specEscape_def)
      have f2: "escapeRune r = [CHR ''|'', CHR 0x7C]"
        unfolding escapeRune_def e c using 5 by simp
      show ?thesis
        unfolding f1 f2 by (simp add: nonAsciiChar_def)
    next
      case 6
      then have c: "char_of r = CHR 0x27" by (simp add: char_of_special)
      have f1: "replaceSpecial (EncodeRune r) = [CHR ''|'', CHR 0x27]"
        unfolding rs c by (simp add: specEscape_def)
      have f2: "escapeRune r = [CHR ''|'', CHR 0x27]"
        unfolding escapeRune_def e c using 6 by simp
      show ?thesis
        unfolding f1 f2 by (simp add: nonAsciiChar_def)
    qed
  qed
qed

lemma escape_runes:
  assumes "\<forall>r \<in> set rs. validRune r"
  shows "escape (concat (map EncodeRune rs)) = concat (map escapeRune rs)"
proof -
  have "replaceNonAscii (replaceSpecial (concat (map EncodeRune rs))) = concat (map escapeRune rs)"
    using assms
  proof (induction rs)
    case Nil
    then show ?case by (simp add: replaceSpecial_def)
  next
    case (Cons r rs)
    then have v: "validRune r" and IH: "replaceNonAscii (replaceSpecial (concat (map EncodeRune rs)))
        = concat (map escapeRune rs)"
      by simp_all
    have "replaceNonAscii (replaceSpecial (concat (map EncodeRune (r # rs))))
            = replaceNonAscii (replaceSpecial (EncodeRune r)
                @ replaceSpecial (concat (map EncodeRune rs)))"
      by (simp add: replaceSpecial_append)
    also have "\<dots> = escapeRune r @ replaceNonAscii (replaceSpecial (concat (map EncodeRune rs)))"
      by (rule escape_rune_step [OF v])
    finally show ?case using IH by simp
  qed
  then show ?thesis by (simp add: escape_def)
qed

subsection \<open>The escaper on arbitrary strings\<close>

lemma DecodeRune_cases:
  assumes "DecodeRune (c # cs) = (r, w)"
  shows "((of_char c :: int) < 0x80 \<and> r = of_char c \<and> w = 1)
       \<or> (0x80 \<le> (of_char c :: int) \<and> r = RuneError \<and> w = 1)
       \<or> (\<exists>c1 rest. cs = c1 # rest \<and> 0xC2 \<le> (of_char c :: int) \<and> (of_char c :: int) < 0xE0
             \<and> 0x80 \<le> (of_char c1 :: int) \<and> (of_char c1 :: int) \<le> 0xBF
             \<and> r = (of_char c mod 32) * 64 + of_char c1 mod 64 \<and> w = 2)
       \<or> (\<exists>c1 c2 rest. cs = c1 # c2 # rest
             \<and> 0xE0 \<le> (of_char c :: int) \<and> (of_char c :: int) < 0xF0
             \<and> (if (of_char c :: int) = 0xE0 then 0xA0 else 0x80) \<le> (of_char c1 :: int)
             \<and> (of_char c1 :: int) \<le> (if (of_char c :: int) = 0xED then 0x9F else 0xBF)
             \<and> 0x80 \<le> (of_char c2 :: int) \<and> (of_char c2 :: int) \<le> 0xBF
             \<and> r = (of_char c mod 16) * 4096 + (of_char c1 mod 64) * 64 + of_char c2 mod 64
             \<and> w = 3)
       \<or> (\<exists>c1 c2 c3 rest. cs = c1 # c2 # c3 # rest
             \<and> 0xF0 \<le> (of_char c :: int) \<and> (of_char c :: int) \<le> 0xF4
             \<and> (if (of_char c :: int) = 0xF0 then 0x90 else 0x80) \<le> (of_char c1 :: int)
             \<and> (of_char c1 :: int) \<le> (if (of_char c :: int) = 0xF4 then 0x8F else 0xBF)
             \<and> 0x80 \<le> (of_char c2 :: int) \<and> (of_char c2 :: int) \<le> 0xBF
             \<and> 0x80 \<le> (of_char c3 :: int) \<and> (of_char c3 :: int) \<le> 0xBF
             \<and> r = (of_char c mod 8) * 262144 + (of_char c1 mod 64) * 4096
                     + (of_char c2 mod 64) * 64 + of_char c3 mod 64
             \<and> w = 4)"
proof (cases cs)
  case Nil
  with assms show ?thesis
    by (auto simp: Let_def split: if_splits)
next
  case c1: (Cons c1 r1)
  show ?thesis
  proof (cases r1)
    case Nil
    with assms c1 show ?thesis
      by (auto simp: Let_def split: if_splits)
  next
    case c2: (Cons c2 r2)
    show ?thesis
    proof (cases r2)
      case Nil
      with assms c1 c2 show ?thesis
        by (auto simp: Let_def split: if_splits)
    next
      case c3: (Cons c3 r3)
      with assms c1 c2 show ?thesis
        by (auto simp: Let_def split: if_splits)
    qed
  qed
qed

lemma div_mod_digits:
  fixes a b n :: int
  assumes "0 \<le> b" "b < n"
  shows "(n * a + b) div n = a" and "(n * a + b) mod n = b"
  using assms by simp_all

lemma char_of_of_char_int: "char_of (of_char c :: int) = c"
  by simp

text \<open>Two bytes.\<close>

lemma decoded2:
  fixes s0 s1 :: int
  assumes s0: "of_char c = s0" "0xC2 \<le> s0" "s0 < 0xE0"
    and s1: "of_char c1 = s1" "0x80 \<le> s1" "s1 \<le> 0xBF"
    and r: "r = (s0 mod 32) * 64 + s1 mod 64"
  shows "validRune r \<and> 0x80 \<le> r \<and> EncodeRune r = [c, c1]"
proof -
  define a b where "a = s0 - 0xC0" and "b = s1 - 0x80"
  have a: "2 \<le> a" "a < 32" and b: "0 \<le> b" "b < 64"
    using s0 s1 unfolding a_def b_def by simp_all
  have e0: "s0 = 0xC0 + a" and e1: "s1 = 0x80 + b"
    unfolding a_def b_def by simp_all
  have m0: "s0 mod 32 = a" unfolding e0 using add_mod_trivial [of a 32 6] a by simp
  have m1: "s1 mod 64 = b" unfolding e1 using add_mod_trivial [of b 64 2] b by simp
  have rr: "r = 64 * a + b" unfolding r m0 m1 by simp
  have d: "r div 64 = a" "r mod 64 = b"
    unfolding rr using div_mod_digits [OF b, of a] by simp_all
  have rng: "0x80 \<le> r" "r < 0x800" using rr a b by linarith+
  have c0: "char_of (0xC0 + a) = c" unfolding e0 [symmetric] s0(1) [symmetric] by simp
  have c1: "char_of (0x80 + b) = c1" unfolding e1 [symmetric] s1(1) [symmetric] by simp
  have "EncodeRune r = [c, c1]"
    using rng by (simp add: EncodeRune_def d c0 c1)
  moreover have "validRune r" using rng by (simp add: validRune_def)
  ultimately show ?thesis using rng by simp
qed

text \<open>Three bytes.\<close>

lemma decoded3:
  fixes s0 s1 s2 :: int
  assumes s0: "of_char c = s0" "0xE0 \<le> s0" "s0 < 0xF0"
    and s1: "of_char c1 = s1" "(if s0 = 0xE0 then 0xA0 else 0x80) \<le> s1"
      "s1 \<le> (if s0 = 0xED then 0x9F else 0xBF)"
    and s2: "of_char c2 = s2" "0x80 \<le> s2" "s2 \<le> 0xBF"
    and r: "r = (s0 mod 16) * 4096 + (s1 mod 64) * 64 + s2 mod 64"
  shows "validRune r \<and> 0x80 \<le> r \<and> EncodeRune r = [c, c1, c2]"
proof -
  define a b d where "a = s0 - 0xE0" and "b = s1 - 0x80" and "d = s2 - 0x80"
  have a: "0 \<le> a" "a < 16" and d: "0 \<le> d" "d < 64"
    using s0 s2 unfolding a_def d_def by simp_all
  have b: "0 \<le> b" "b < 64"
    using s1 unfolding b_def by (simp_all split: if_splits)
  have a0: "a = 0 \<Longrightarrow> 32 \<le> b" and a13: "a = 13 \<Longrightarrow> b < 32"
    using s1 unfolding a_def b_def by (simp_all split: if_splits)
  have e0: "s0 = 0xE0 + a" and e1: "s1 = 0x80 + b" and e2: "s2 = 0x80 + d"
    unfolding a_def b_def d_def by simp_all
  have m0: "s0 mod 16 = a" unfolding e0 using add_mod_trivial [of a 16 14] a by simp
  have m1: "s1 mod 64 = b" unfolding e1 using add_mod_trivial [of b 64 2] b by simp
  have m2: "s2 mod 64 = d" unfolding e2 using add_mod_trivial [of d 64 2] d by simp
  have rr: "r = 4096 * a + 64 * b + d" unfolding r m0 m1 m2 by simp
  have lo: "0 \<le> 64 * b + d" "64 * b + d < 4096" using b d by linarith+
  have "r = 4096 * a + (64 * b + d)" using rr by simp
  then have d1: "r div 4096 = a"
    using div_mod_digits(1) [OF lo, of a] by simp
  have "r = 64 * (64 * a + b) + d" using rr by simp
  then have d2: "r div 64 = 64 * a + b" and d3: "r mod 64 = d"
    using div_mod_digits [OF d, of "64 * a + b"] by simp_all
  have d4: "r div 64 mod 64 = b"
    unfolding d2 using div_mod_digits(2) [OF b, of a] by simp
  have r1: "0x800 \<le> r"
  proof (cases "a = 0")
    case True
    with a0 have "32 \<le> b" by simp
    with rr True d show ?thesis by linarith
  next
    case False
    with a have "1 \<le> a" by simp
    with rr b d show ?thesis by linarith
  qed
  have r2: "r < 0x10000" using rr a b d by linarith
  have r3: "\<not> (0xD800 \<le> r \<and> r \<le> 0xDFFF)"
  proof (cases "a = 13")
    case True
    with a13 have "b < 32" by simp
    with rr True d show ?thesis by linarith
  next
    case False
    then consider "a \<le> 12" | "14 \<le> a" by linarith
    then show ?thesis
    proof cases
      case 1
      with rr b d show ?thesis by linarith
    next
      case 2
      with rr b d show ?thesis by linarith
    qed
  qed
  note rng = r1 r2 r3
  have c0: "char_of (0xE0 + a) = c" unfolding e0 [symmetric] s0(1) [symmetric] by simp
  have c1: "char_of (0x80 + b) = c1" unfolding e1 [symmetric] s1(1) [symmetric] by simp
  have c2: "char_of (0x80 + d) = c2" unfolding e2 [symmetric] s2(1) [symmetric] by simp
  have "EncodeRune r = [c, c1, c2]"
    using rng by (simp add: EncodeRune_def d1 d3 d4 c0 c1 c2)
  moreover have "validRune r" using rng by (simp add: validRune_def)
  ultimately show ?thesis using rng by simp
qed

text \<open>Four bytes.\<close>

lemma decoded4:
  fixes s0 s1 s2 s3 :: int
  assumes s0: "of_char c = s0" "0xF0 \<le> s0" "s0 \<le> 0xF4"
    and s1: "of_char c1 = s1" "(if s0 = 0xF0 then 0x90 else 0x80) \<le> s1"
      "s1 \<le> (if s0 = 0xF4 then 0x8F else 0xBF)"
    and s2: "of_char c2 = s2" "0x80 \<le> s2" "s2 \<le> 0xBF"
    and s3: "of_char c3 = s3" "0x80 \<le> s3" "s3 \<le> 0xBF"
    and r: "r = (s0 mod 8) * 262144 + (s1 mod 64) * 4096 + (s2 mod 64) * 64 + s3 mod 64"
  shows "validRune r \<and> 0x80 \<le> r \<and> EncodeRune r = [c, c1, c2, c3]"
proof -
  define a b d e where "a = s0 - 0xF0" and "b = s1 - 0x80" and "d = s2 - 0x80"
    and "e = s3 - 0x80"
  have a: "0 \<le> a" "a \<le> 4" and d: "0 \<le> d" "d < 64" and e: "0 \<le> e" "e < 64"
    using s0 s2 s3 unfolding a_def d_def e_def by simp_all
  have b: "0 \<le> b" "b < 64"
    using s1 unfolding b_def by (simp_all split: if_splits)
  have a0: "a = 0 \<Longrightarrow> 16 \<le> b" and a4: "a = 4 \<Longrightarrow> b < 16"
    using s1 unfolding a_def b_def by (simp_all split: if_splits)
  have e0: "s0 = 0xF0 + a" and e1: "s1 = 0x80 + b" and e2: "s2 = 0x80 + d"
    and e3: "s3 = 0x80 + e"
    unfolding a_def b_def d_def e_def by simp_all
  have a8: "a < 8" using a by simp
  have m0: "s0 mod 8 = a" unfolding e0 using add_mod_trivial [of a 8 30] a a8 by simp
  have m1: "s1 mod 64 = b" unfolding e1 using add_mod_trivial [of b 64 2] b by simp
  have m2: "s2 mod 64 = d" unfolding e2 using add_mod_trivial [of d 64 2] d by simp
  have m3: "s3 mod 64 = e" unfolding e3 using add_mod_trivial [of e 64 2] e by simp
  have rr: "r = 262144 * a + 4096 * b + 64 * d + e" unfolding r m0 m1 m2 m3 by simp
  have lo3: "0 \<le> 4096 * b + 64 * d + e" "4096 * b + 64 * d + e < 262144"
    using b d e by linarith+
  have lo2: "0 \<le> 64 * d + e" "64 * d + e < 4096" using d e by linarith+
  have "r = 262144 * a + (4096 * b + 64 * d + e)" using rr by simp
  then have d1: "r div 262144 = a"
    using div_mod_digits(1) [OF lo3, of a] by simp
  have "r = 4096 * (64 * a + b) + (64 * d + e)" using rr by simp
  then have d2: "r div 4096 = 64 * a + b"
    using div_mod_digits(1) [OF lo2, of "64 * a + b"] by simp
  have d3: "r div 4096 mod 64 = b"
    unfolding d2 using div_mod_digits(2) [OF b, of a] by simp
  have "r = 64 * (4096 * a + 64 * b + d) + e" using rr by simp
  then have d4: "r div 64 = 64 * (64 * a + b) + d" and d5: "r mod 64 = e"
    using div_mod_digits [OF e, of "4096 * a + 64 * b + d"] by simp_all
  have d6: "r div 64 mod 64 = d"
    unfolding d4 using div_mod_digits(2) [OF d, of "64 * a + b"] by simp
  have r1: "0x10000 \<le> r"
  proof (cases "a = 0")
    case True
    with a0 have "16 \<le> b" by simp
    with rr True d e show ?thesis by linarith
  next
    case False
    with a have "1 \<le> a" by simp
    with rr b d e show ?thesis by linarith
  qed
  have r2: "r \<le> 0x10FFFF"
  proof (cases "a = 4")
    case True
    with a4 have "b < 16" by simp
    with rr True d e show ?thesis by linarith
  next
    case False
    with a have "a \<le> 3" by simp
    with rr b d e show ?thesis by linarith
  qed
  note rng = r1 r2
  have c0: "char_of (0xF0 + a) = c" unfolding e0 [symmetric] s0(1) [symmetric] by simp
  have c1: "char_of (0x80 + b) = c1" unfolding e1 [symmetric] s1(1) [symmetric] by simp
  have c2: "char_of (0x80 + d) = c2" unfolding e2 [symmetric] s2(1) [symmetric] by simp
  have c3: "char_of (0x80 + e) = c3" unfolding e3 [symmetric] s3(1) [symmetric] by simp
  have "EncodeRune r = [c, c1, c2, c3]"
    using rng by (simp add: EncodeRune_def d1 d3 d5 d6 c0 c1 c2 c3)
  moreover have "validRune r" using rng by (simp add: validRune_def)
  ultimately show ?thesis using rng by simp
qed

lemma DecodeRune_valid:
  assumes "DecodeRune (c # cs) = (r, w)"
  shows "(validRune r \<and> take w (c # cs) = EncodeRune r
            \<and> ((of_char c :: int) < 0x80 \<longrightarrow> r = of_char c \<and> w = 1)
            \<and> (0x80 \<le> (of_char c :: int) \<longrightarrow> 0x80 \<le> r \<and> 2 \<le> w))
         \<or> (r = RuneError \<and> w = 1 \<and> 0x80 \<le> (of_char c :: int))"
proof -
  from DecodeRune_cases [OF assms]
  consider (ascii) "(of_char c :: int) < 0x80" "r = of_char c" "w = 1"
    | (bad) "0x80 \<le> (of_char c :: int)" "r = RuneError" "w = 1"
    | (two) c1 rest where "cs = c1 # rest" "0xC2 \<le> (of_char c :: int)" "(of_char c :: int) < 0xE0"
        "0x80 \<le> (of_char c1 :: int)" "(of_char c1 :: int) \<le> 0xBF"
        "r = (of_char c mod 32) * 64 + of_char c1 mod 64" "w = 2"
    | (three) c1 c2 rest where "cs = c1 # c2 # rest"
        "0xE0 \<le> (of_char c :: int)" "(of_char c :: int) < 0xF0"
        "(if (of_char c :: int) = 0xE0 then 0xA0 else 0x80) \<le> (of_char c1 :: int)"
        "(of_char c1 :: int) \<le> (if (of_char c :: int) = 0xED then 0x9F else 0xBF)"
        "0x80 \<le> (of_char c2 :: int)" "(of_char c2 :: int) \<le> 0xBF"
        "r = (of_char c mod 16) * 4096 + (of_char c1 mod 64) * 64 + of_char c2 mod 64"
        "w = 3"
    | (four) c1 c2 c3 rest where "cs = c1 # c2 # c3 # rest"
        "0xF0 \<le> (of_char c :: int)" "(of_char c :: int) \<le> 0xF4"
        "(if (of_char c :: int) = 0xF0 then 0x90 else 0x80) \<le> (of_char c1 :: int)"
        "(of_char c1 :: int) \<le> (if (of_char c :: int) = 0xF4 then 0x8F else 0xBF)"
        "0x80 \<le> (of_char c2 :: int)" "(of_char c2 :: int) \<le> 0xBF"
        "0x80 \<le> (of_char c3 :: int)" "(of_char c3 :: int) \<le> 0xBF"
        "r = (of_char c mod 8) * 262144 + (of_char c1 mod 64) * 4096
                     + (of_char c2 mod 64) * 64 + of_char c3 mod 64"
        "w = 4"
    by blast
  then show ?thesis
  proof cases
    case ascii
    have "0 \<le> (of_char c :: int)"
      using pos_mod_sign [of 256 "of_char c :: int"] by simp
    with ascii have "validRune r" by (simp add: validRune_def)
    moreover have "EncodeRune r = [c]" using ascii by (simp add: EncodeRune_def)
    ultimately show ?thesis using ascii by simp
  next
    case bad
    then show ?thesis by simp
  next
    case two
    from decoded2 [OF refl two(2,3) refl two(4,5) two(6)] two(1,2,7) show ?thesis
      by simp
  next
    case three
    from decoded3 [OF refl three(2,3) refl three(4,5) refl three(6,7) three(8)] three(1,2,9)
    show ?thesis by simp
  next
    case four
    from decoded4 [OF refl four(2,3) refl four(4,5) refl four(6,7) refl four(8,9) four(10)]
      four(1,2,11)
    show ?thesis by simp
  qed
qed

lemma DecodeRune_width:
  assumes "DecodeRune (c # cs) = (r, w)"
  shows "1 \<le> w" and "w - 1 \<le> length cs"
    and "\<forall>b \<in> set (take (w - 1) cs). 0x80 \<le> (of_char b :: int)"
  using DecodeRune_cases [OF assms] by (auto split: if_splits)

declare DecodeRune.simps [simp del]

lemma high_not_specialChar: "0x80 \<le> (of_char b :: int) \<Longrightarrow> \<not> specialChar b"
  using specialChar_low [of b] by auto

lemma replaceSpecial_Cons:
  "replaceSpecial (b # rest) = (if specialChar b then specEscape [b] else [b]) @ replaceSpecial rest"
  by (simp add: replaceSpecial_def)

lemma replaceSpecial_high:
  "0x80 \<le> (of_char b :: int) \<Longrightarrow> replaceSpecial (b # rest) = b # replaceSpecial rest"
  by (simp add: replaceSpecial_Cons high_not_specialChar)

lemma specEscape_head:
  "specialChar b \<Longrightarrow> \<exists>y. specEscape [b] = [CHR ''|'', y] \<and> 0x20 < (of_char y :: int)
      \<and> (of_char y :: int) < 0x80"
  by (auto simp: specialChar_def specEscape_def)

lemma replaceSpecial_high_head:
  assumes "replaceSpecial cs = x # t" and "0x80 \<le> (of_char x :: int)"
  shows "\<exists>rest. cs = x # rest \<and> t = replaceSpecial rest"
proof (cases cs)
  case Nil
  with assms(1) show ?thesis by (simp add: replaceSpecial_def)
next
  case (Cons b rest)
  show ?thesis
  proof (cases "specialChar b")
    case True
    from specEscape_head [OF True] obtain y where "specEscape [b] = [CHR ''|'', y]" by blast
    with assms(1) Cons True have "x = CHR ''|''" by (simp add: replaceSpecial_Cons)
    with assms(2) show ?thesis by simp
  next
    case False
    with assms(1) Cons show ?thesis by (simp add: replaceSpecial_Cons)
  qed
qed

lemma DecodeRune_replaceSpecial:
  assumes h: "0x80 \<le> (of_char c :: int)"
  shows "DecodeRune (c # replaceSpecial cs) = DecodeRune (c # cs)"
proof -
  obtain r w where d: "DecodeRune (c # cs) = (r, w)" by (cases "DecodeRune (c # cs)")
  obtain r' w' where d': "DecodeRune (c # replaceSpecial cs) = (r', w')"
    by (cases "DecodeRune (c # replaceSpecial cs)")
  from DecodeRune_cases [OF d] h
  consider (bad) "r = RuneError" "w = 1"
    | (two) c1 rest where "cs = c1 # rest" "0xC2 \<le> (of_char c :: int)" "(of_char c :: int) < 0xE0"
        "0x80 \<le> (of_char c1 :: int)" "(of_char c1 :: int) \<le> 0xBF"
    | (three) c1 c2 rest where "cs = c1 # c2 # rest"
        "0xE0 \<le> (of_char c :: int)" "(of_char c :: int) < 0xF0"
        "(if (of_char c :: int) = 0xE0 then 0xA0 else 0x80) \<le> (of_char c1 :: int)"
        "(of_char c1 :: int) \<le> (if (of_char c :: int) = 0xED then 0x9F else 0xBF)"
        "0x80 \<le> (of_char c2 :: int)" "(of_char c2 :: int) \<le> 0xBF"
    | (four) c1 c2 c3 rest where "cs = c1 # c2 # c3 # rest"
        "0xF0 \<le> (of_char c :: int)" "(of_char c :: int) \<le> 0xF4"
        "(if (of_char c :: int) = 0xF0 then 0x90 else 0x80) \<le> (of_char c1 :: int)"
        "(of_char c1 :: int) \<le> (if (of_char c :: int) = 0xF4 then 0x8F else 0xBF)"
        "0x80 \<le> (of_char c2 :: int)" "(of_char c2 :: int) \<le> 0xBF"
        "0x80 \<le> (of_char c3 :: int)" "(of_char c3 :: int) \<le> 0xBF"
    by fastforce
  then show ?thesis
  proof cases
    case two
    have rs: "replaceSpecial cs = c1 # replaceSpecial rest"
      unfolding two(1) by (rule replaceSpecial_high [OF two(4)])
    have "DecodeRune (c # replaceSpecial cs) = DecodeRune (c # c1 # replaceSpecial rest)"
      by (simp only: rs)
    also have "\<dots> = DecodeRune (c # c1 # rest)"
      by (simp only: DecodeRune_2 [OF refl two(2,3) refl two(4,5)])
    finally show ?thesis by (simp only: two(1))
  next
    case three
    have h1: "0x80 \<le> (of_char c1 :: int)" using three(4) by (simp split: if_splits)
    have rs: "replaceSpecial cs = c1 # c2 # replaceSpecial rest"
      unfolding three(1) by (simp add: replaceSpecial_high [OF h1] replaceSpecial_high [OF three(6)])
    have "DecodeRune (c # replaceSpecial cs) = DecodeRune (c # c1 # c2 # replaceSpecial rest)"
      by (simp only: rs)
    also have "\<dots> = DecodeRune (c # c1 # c2 # rest)"
      by (simp only: DecodeRune_3 [OF refl three(2,3) refl three(4,5) refl three(6,7)])
    finally show ?thesis by (simp only: three(1))
  next
    case four
    have h1: "0x80 \<le> (of_char c1 :: int)" using four(4) by (simp split: if_splits)
    have rs: "replaceSpecial cs = c1 # c2 # c3 # replaceSpecial rest"
      unfolding four(1)
      by (simp add: replaceSpecial_high [OF h1] replaceSpecial_high [OF four(6)]
          replaceSpecial_high [OF four(8)])
    have "DecodeRune (c # replaceSpecial cs)
            = DecodeRune (c # c1 # c2 # c3 # replaceSpecial rest)"
      by (simp only: rs)
    also have "\<dots> = DecodeRune (c # c1 # c2 # c3 # rest)"
      by (simp only: DecodeRune_4 [OF refl four(2,3) refl four(4,5) refl four(6,7)
            refl four(8,9)])
    finally show ?thesis by (simp only: four(1))
  next
    case bad
    from DecodeRune_cases [OF d'] h
    consider (bad') "r' = RuneError" "w' = 1"
      | (two') c1 t where "replaceSpecial cs = c1 # t" "0xC2 \<le> (of_char c :: int)"
          "(of_char c :: int) < 0xE0"
          "0x80 \<le> (of_char c1 :: int)" "(of_char c1 :: int) \<le> 0xBF"
      | (three') c1 c2 t where "replaceSpecial cs = c1 # c2 # t"
          "0xE0 \<le> (of_char c :: int)" "(of_char c :: int) < 0xF0"
          "(if (of_char c :: int) = 0xE0 then 0xA0 else 0x80) \<le> (of_char c1 :: int)"
          "(of_char c1 :: int) \<le> (if (of_char c :: int) = 0xED then 0x9F else 0xBF)"
          "0x80 \<le> (of_char c2 :: int)" "(of_char c2 :: int) \<le> 0xBF"
      | (four') c1 c2 c3 t where "replaceSpecial cs = c1 # c2 # c3 # t"
          "0xF0 \<le> (of_char c :: int)" "(of_char c :: int) \<le> 0xF4"
          "(if (of_char c :: int) = 0xF0 then 0x90 else 0x80) \<le> (of_char c1 :: int)"
          "(of_char c1 :: int) \<le> (if (of_char c :: int) = 0xF4 then 0x8F else 0xBF)"
          "0x80 \<le> (of_char c2 :: int)" "(of_char c2 :: int) \<le> 0xBF"
          "0x80 \<le> (of_char c3 :: int)" "(of_char c3 :: int) \<le> 0xBF"
      by fastforce
    then show ?thesis
    proof cases
      case bad'
      with bad d d' show ?thesis by simp
    next
      case two'
      from replaceSpecial_high_head [OF two'(1,4)] obtain rest where cs: "cs = c1 # rest"
        by blast
      from DecodeRune_2 [OF refl two'(2,3) refl two'(4,5), of rest] d bad(2)
      show ?thesis unfolding cs by simp
    next
      case three'
      have h1: "0x80 \<le> (of_char c1 :: int)" using three'(4) by (simp split: if_splits)
      from replaceSpecial_high_head [OF three'(1) h1] obtain rest1 where
        cs1: "cs = c1 # rest1" and t1: "c2 # t = replaceSpecial rest1" by blast
      from replaceSpecial_high_head [OF t1 [symmetric] three'(6)] obtain rest where
        cs2: "rest1 = c2 # rest" by blast
      from DecodeRune_3 [OF refl three'(2,3) refl three'(4,5) refl three'(6,7), of rest] d bad(2)
      show ?thesis unfolding cs1 cs2 by simp
    next
      case four'
      have h1: "0x80 \<le> (of_char c1 :: int)" using four'(4) by (simp split: if_splits)
      from replaceSpecial_high_head [OF four'(1) h1] obtain rest1 where
        cs1: "cs = c1 # rest1" and t1: "c2 # c3 # t = replaceSpecial rest1" by blast
      from replaceSpecial_high_head [OF t1 [symmetric] four'(6)] obtain rest2 where
        cs2: "rest1 = c2 # rest2" and t2: "c3 # t = replaceSpecial rest2" by blast
      from replaceSpecial_high_head [OF t2 [symmetric] four'(8)] obtain rest where
        cs3: "rest2 = c3 # rest" by blast
      from DecodeRune_4 [OF refl four'(2,3) refl four'(4,5) refl four'(6,7) refl four'(8,9),
          of rest] d bad(2)
      show ?thesis unfolding cs1 cs2 cs3 by simp
    qed
  qed
qed

lemma replaceSpecial_split:
  assumes "DecodeRune (c # cs) = (r, w)"
  shows "replaceSpecial cs = take (w - 1) cs @ replaceSpecial (drop (w - 1) cs)"
proof -
  from DecodeRune_width(3) [OF assms]
  have "\<forall>b \<in> set (take (w - 1) cs). \<not> specialChar b"
    using high_not_specialChar by blast
  from replaceSpecial_id [OF this]
  have "replaceSpecial (take (w - 1) cs @ drop (w - 1) cs)
          = take (w - 1) cs @ replaceSpecial (drop (w - 1) cs)"
    by (simp only: replaceSpecial_append)
  then show ?thesis by simp
qed

declare replaceNonAscii.simps [simp del]
declare Chars.simps [simp del]

lemma Chars_Cons:
  assumes "DecodeRune (c # cs) = (r, w)"
  shows "Chars (c # cs) = (r, c # take (w - 1) cs) # Chars (drop (w - 1) cs)"
proof -
  from DecodeRune_width(1) [OF assms] obtain k where k: "w = Suc k" by (cases w) auto
  show ?thesis using assms by (simp add: k Chars.simps)
qed

lemma replaceNonAscii_Cons:
  assumes "DecodeRune (c # t) = (r, w)"
  shows "replaceNonAscii (c # t) =
           (if nonAsciiChar r then unicodeEscape (c # take (w - 1) t) else c # take (w - 1) t)
           @ replaceNonAscii (drop (w - 1) t)"
proof -
  from DecodeRune_width(1) [OF assms] obtain k where k: "w = Suc k" by (cases w) auto
  show ?thesis using assms by (simp add: k replaceNonAscii.simps)
qed

lemma specialChar_code:
  "specialChar c \<longleftrightarrow>
     (of_char c :: int) = 0x0A \<or> (of_char c :: int) = 0x0D \<or> (of_char c :: int) = 0x5B
     \<or> (of_char c :: int) = 0x5D \<or> (of_char c :: int) = 0x7C \<or> (of_char c :: int) = 0x27"
proof
  assume "specialChar c"
  then show "(of_char c :: int) = 0x0A \<or> (of_char c :: int) = 0x0D \<or> (of_char c :: int) = 0x5B
     \<or> (of_char c :: int) = 0x5D \<or> (of_char c :: int) = 0x7C \<or> (of_char c :: int) = 0x27"
    by (auto simp: specialChar_def)
next
  have inj: "c = char_of v" if "(of_char c :: int) = v" for v
    using that char_of_of_char_int [of c] by simp
  assume "(of_char c :: int) = 0x0A \<or> (of_char c :: int) = 0x0D \<or> (of_char c :: int) = 0x5B
     \<or> (of_char c :: int) = 0x5D \<or> (of_char c :: int) = 0x7C \<or> (of_char c :: int) = 0x27"
  then have "c = char_of (0x0A :: int) \<or> c = char_of (0x0D :: int) \<or> c = char_of (0x5B :: int)
     \<or> c = char_of (0x5D :: int) \<or> c = char_of (0x7C :: int) \<or> c = char_of (0x27 :: int)"
    using inj by blast
  then show "specialChar c"
    unfolding char_of_special specialChar_def by blast
qed

lemma escapeChar_special:
  assumes "specialChar c"
  shows "escapeChar (of_char c, [c]) = specEscape [c]"
  using assms by (auto simp: specialChar_def specEscape_def escapeChar_def)

lemma escapeChar_plain:
  assumes "\<not> specialChar c"
  shows "escapeChar (of_char c, c # bs) =
           (if nonAsciiChar (of_char c) then unicodeEscape (c # bs) else c # bs)"
  using assms unfolding specialChar_code
  by (simp add: escapeChar_def nonAsciiChar_def unicodeEscape_def)

lemma escapeChar_high:
  assumes "0x80 \<le> r"
  shows "escapeChar (r, c # bs) = (if nonAsciiChar r then unicodeEscape (c # bs) else c # bs)"
  using assms by (simp add: escapeChar_def nonAsciiChar_def unicodeEscape_def)

lemma escape_step:
  assumes d: "DecodeRune (c # cs) = (r, w)"
  shows "replaceNonAscii (replaceSpecial (c # cs))
           = escapeChar (r, c # take (w - 1) cs)
             @ replaceNonAscii (replaceSpecial (drop (w - 1) cs))"
proof (cases "(of_char c :: int) < 0x80")
  case True
  from DecodeRune_1 [OF refl True, of cs] d have rw: "r = of_char c" "w = 1" by simp_all
  show ?thesis
  proof (cases "specialChar c")
    case sp: True
    from specEscape_head [OF sp] obtain y where y: "specEscape [c] = [CHR ''|'', y]"
      "0x20 < (of_char y :: int)" "(of_char y :: int) < 0x80" by blast
    have rs: "replaceSpecial (c # cs) = CHR ''|'' # y # replaceSpecial cs"
      by (simp add: replaceSpecial_Cons sp y(1))
    have p: "replaceNonAscii (CHR ''|'' # t) = CHR ''|'' # replaceNonAscii t" for t
      by (rule replaceNonAscii_ascii) simp_all
    have q: "replaceNonAscii (y # t) = y # replaceNonAscii t" for t
      by (rule replaceNonAscii_ascii [OF y(2,3)])
    have "replaceNonAscii (replaceSpecial (c # cs))
                 = CHR ''|'' # y # replaceNonAscii (replaceSpecial cs)"
      by (simp only: rs p q)
    with escapeChar_special [OF sp] y(1) rw show ?thesis by simp
  next
    case False
    have rs: "replaceSpecial (c # cs) = c # replaceSpecial cs"
      by (simp add: replaceSpecial_Cons False)
    from DecodeRune_1 [OF refl True, of "replaceSpecial cs"]
    have "DecodeRune (c # replaceSpecial cs) = (of_char c, 1)" .
    from replaceNonAscii_Cons [OF this]
    have "replaceNonAscii (c # replaceSpecial cs)
            = (if nonAsciiChar (of_char c) then unicodeEscape [c] else [c])
              @ replaceNonAscii (replaceSpecial cs)"
      by simp
    with escapeChar_plain [OF False, of "[]"] rs rw show ?thesis by simp
  qed
next
  case False
  then have h: "0x80 \<le> (of_char c :: int)" by simp
  have rs: "replaceSpecial (c # cs) = c # replaceSpecial cs"
    by (rule replaceSpecial_high [OF h])
  have d': "DecodeRune (c # replaceSpecial cs) = (r, w)"
    using DecodeRune_replaceSpecial [OF h, of cs] d by simp
  note sp = replaceSpecial_split [OF d]
  have len: "length (take (w - 1) cs) = w - 1"
    using DecodeRune_width(2) [OF d] by simp
  from sp have "take (w - 1) cs @ replaceSpecial (drop (w - 1) cs) = replaceSpecial cs"
    by simp
  then have "take (w - 1) cs = take (length (take (w - 1) cs)) (replaceSpecial cs)
      \<and> replaceSpecial (drop (w - 1) cs)
          = drop (length (take (w - 1) cs)) (replaceSpecial cs)"
    by (simp only: append_eq_conv_conj)
  then have tk: "take (w - 1) (replaceSpecial cs) = take (w - 1) cs"
    and dr: "drop (w - 1) (replaceSpecial cs) = replaceSpecial (drop (w - 1) cs)"
    unfolding len by simp_all
  from DecodeRune_valid [OF d] h have r: "0x80 \<le> r"
    by (auto simp: RuneError_def)
  from replaceNonAscii_Cons [OF d']
  have "replaceNonAscii (c # replaceSpecial cs)
          = (if nonAsciiChar r then unicodeEscape (c # take (w - 1) cs)
             else c # take (w - 1) cs)
            @ replaceNonAscii (replaceSpecial (drop (w - 1) cs))"
    unfolding tk dr .
  with escapeChar_high [OF r, of c "take (w - 1) cs"] rs show ?thesis by simp
qed

lemma escape_Chars: "replaceNonAscii (replaceSpecial s) = concat (map escapeChar (Chars s))"
proof (induction s rule: length_induct)
  case (1 s)
  show ?case
  proof (cases s)
    case Nil
    then show ?thesis by (simp add: replaceSpecial_def replaceNonAscii.simps Chars.simps)
  next
    case (Cons c cs)
    obtain r w where d: "DecodeRune (c # cs) = (r, w)" by (cases "DecodeRune (c # cs)")
    have "length (drop (w - 1) cs) < length s" using Cons by simp
    with 1 have IH: "replaceNonAscii (replaceSpecial (drop (w - 1) cs))
                       = concat (map escapeChar (Chars (drop (w - 1) cs)))"
      by blast
    show ?thesis
      unfolding Cons escape_step [OF d] Chars_Cons [OF d] IH by simp
  qed
qed

lemma concat_Chars: "concat (map snd (Chars s)) = s"
proof (induction s rule: length_induct)
  case (1 s)
  show ?case
  proof (cases s)
    case Nil
    then show ?thesis by (simp add: Chars.simps)
  next
    case (Cons c cs)
    obtain r w where d: "DecodeRune (c # cs) = (r, w)" by (cases "DecodeRune (c # cs)")
    have "length (drop (w - 1) cs) < length s" using Cons by simp
    with 1 have IH: "concat (map snd (Chars (drop (w - 1) cs))) = drop (w - 1) cs"
      by blast
    show ?thesis
      unfolding Cons Chars_Cons [OF d] using IH by simp
  qed
qed

lemma Chars_wellFormed:
  "list_all (\<lambda>ch. wellFormedChar ch \<or> illFormedByte ch) (Chars s)"
proof (induction s rule: length_induct)
  case (1 s)
  show ?case
  proof (cases s)
    case Nil
    then show ?thesis by (simp add: Chars.simps)
  next
    case (Cons c cs)
    obtain r w where d: "DecodeRune (c # cs) = (r, w)" by (cases "DecodeRune (c # cs)")
    have "length (drop (w - 1) cs) < length s" using Cons by simp
    with 1 have IH: "list_all (\<lambda>ch. wellFormedChar ch \<or> illFormedByte ch)
                       (Chars (drop (w - 1) cs))"
      by blast
    from DecodeRune_width(1) [OF d] obtain k where k: "w = Suc k" by (cases w) auto
    from DecodeRune_valid [OF d]
    have "wellFormedChar (r, c # take (w - 1) cs) \<or> illFormedByte (r, c # take (w - 1) cs)"
      by (auto simp: wellFormedChar_def illFormedByte_def k)
    with IH show ?thesis
      unfolding Cons Chars_Cons [OF d] by simp
  qed
qed

lemma Chars_EncodeRune:
  assumes "validRune r"
  shows "Chars (EncodeRune r @ rest) = (r, EncodeRune r) # Chars rest"
proof -
  obtain c cs where e: "EncodeRune r = c # cs"
    using EncodeRune_nonempty [of r] by (cases "EncodeRune r") auto
  from DecodeRune_EncodeRune [OF assms, of rest]
  have d: "DecodeRune (c # cs @ rest) = (r, Suc (length cs))"
    by (simp add: e)
  show ?thesis
    unfolding e using Chars_Cons [OF d] by simp
qed

lemma Chars_encoded:
  "\<forall>r \<in> set rs. validRune r \<Longrightarrow>
     Chars (concat (map EncodeRune rs)) = map (\<lambda>r. (r, EncodeRune r)) rs"
  by (induction rs) (simp_all add: Chars_EncodeRune Chars.simps)

text \<open>
  C5 (as amended): for every string, escaping works character by character, the string
  being read as UTF-8 with every byte outside a well-formed encoding taken as a character
  of its own (read as U+FFFD). Each of the six special characters is replaced by its
  two-character escape; each other character with code point in [0x00, 0x20] or in
  [0x80, 0xFFFF], so also each ill-formed byte, is replaced by \<^verbatim>\<open>|0x\<close> and the four
  lower-case hexadecimal digits of its first byte; every other character is unchanged,
  among them all characters from U+10000 on. The characters cover the string, and for
  the encoding of a sequence of valid code points they are these code points.
\<close>

theorem escape_chars:
  "escape s = concat (map escapeChar (Chars s))
   \<and> concat (map snd (Chars s)) = s
   \<and> list_all (\<lambda>ch. wellFormedChar ch \<or> illFormedByte ch) (Chars s)
   \<and> ((\<forall>r \<in> set rs. validRune r) \<longrightarrow>
        Chars (concat (map EncodeRune rs)) = map (\<lambda>r. (r, EncodeRune r)) rs
        \<and> escape (concat (map EncodeRune rs)) = concat (map escapeRune rs))"
  using escape_Chars [of s] concat_Chars [of s] Chars_wellFormed [of s] Chars_encoded [of rs]
    escape_runes [of rs]
  by (simp add: escape_def)

theorem escape_chars_witness:
  "Chars [CHR ''A'', CHR 0xFF, CHR ''['', CHR ''b'', CHR '']'', CHR 0xE2, CHR 0x82, CHR 0x0A]
     = [(0x41, ''A''), (0xFFFD, [CHR 0xFF]), (0x5B, ''[''), (0x62, ''b''), (0x5D, '']''),
        (0xFFFD, [CHR 0xE2]), (0xFFFD, [CHR 0x82]), (0x0A, [CHR 0x0A])]
   \<and> escape [CHR ''A'', CHR 0xFF, CHR ''['', CHR ''b'', CHR '']'', CHR 0xE2, CHR 0x82, CHR 0x0A]
       = ''A|0x00ff|[b|]|0x00e2|0x0082|n''
   \<and> list_all validRune [0x41, 0x27, 0x0A, 0x01, 0x20, 0xE9, 0x20AC, 0x1F600]
   \<and> concat (map EncodeRune [0x41, 0x27, 0x0A, 0x01, 0x20, 0xE9, 0x20AC, 0x1F600])
       = [CHR ''A'', CHR 0x27, CHR 0x0A, CHR 0x01, CHR 0x20, CHR 0xC3, CHR 0xA9,
          CHR 0xE2, CHR 0x82, CHR 0xAC, CHR 0xF0, CHR 0x9F, CHR 0x98, CHR 0x80]
   \<and> Chars [CHR ''A'', CHR 0x27, CHR 0x0A, CHR 0x01, CHR 0x20, CHR 0xC3, CHR 0xA9,
          CHR 0xE2, CHR 0x82, CHR 0xAC, CHR 0xF0, CHR 0x9F, CHR 0x98, CHR 0x80]
       = [(0x41, ''A''), (0x27, sq), (0x0A, nl), (0x01, [CHR 0x01]), (0x20, '' ''),
          (0xE9, [CHR 0xC3, CHR 0xA9]), (0x20AC, [CHR 0xE2, CHR 0x82, CHR 0xAC]),
          (0x1F600, [CHR 0xF0, CHR 0x9F, CHR 0x98, CHR 0x80])]
   \<and> escape [CHR ''A'', CHR 0x27, CHR 0x0A, CHR 0x01, CHR 0x20, CHR 0xC3, CHR 0xA9,
          CHR 0xE2, CHR 0x82, CHR 0xAC, CHR 0xF0, CHR 0x9F, CHR 0x98, CHR 0x80]
       = ''A|'' @ sq @ ''|n|0x0001|0x0020|0x00c3|0x00e2''
         @ [CHR 0xF0, CHR 0x9F, CHR 0x98, CHR 0x80]"
proof -
  let ?s = "[CHR ''A'', CHR 0xFF, CHR ''['', CHR ''b'', CHR '']'', CHR 0xE2, CHR 0x82, CHR 0x0A]"
  let ?rs = "[0x41, 0x27, 0x0A, 0x01, 0x20, 0xE9, 0x20AC, 0x1F600] :: int list"
  let ?t = "[CHR ''A'', CHR 0x27, CHR 0x0A, CHR 0x01, CHR 0x20, CHR 0xC3, CHR 0xA9,
          CHR 0xE2, CHR 0x82, CHR 0xAC, CHR 0xF0, CHR 0x9F, CHR 0x98, CHR 0x80]"
  have v: "\<forall>r \<in> set ?rs. validRune r"
    by (simp add: validRune_def)
  have l: "list_all validRune ?rs"
    using v by (simp only: list_all_iff)
  have c: "Chars ?s
     = [(0x41, ''A''), (0xFFFD, [CHR 0xFF]), (0x5B, ''[''), (0x62, ''b''), (0x5D, '']''),
        (0xFFFD, [CHR 0xE2]), (0xFFFD, [CHR 0x82]), (0x0A, [CHR 0x0A])]"
    by code_simp
  have ec: "concat (map escapeChar
      [(0x41, ''A''), (0xFFFD, [CHR 0xFF]), (0x5B, ''[''), (0x62, ''b''), (0x5D, '']''),
        (0xFFFD, [CHR 0xE2]), (0xFFFD, [CHR 0x82]), (0x0A, [CHR 0x0A])])
      = ''A|0x00ff|[b|]|0x00e2|0x0082|n''"
    by code_simp
  have e: "concat (map EncodeRune ?rs) = ?t"
    by code_simp
  have m: "map (\<lambda>r. (r, EncodeRune r)) ?rs
       = [(0x41, ''A''), (0x27, sq), (0x0A, nl), (0x01, [CHR 0x01]), (0x20, '' ''),
          (0xE9, [CHR 0xC3, CHR 0xA9]), (0x20AC, [CHR 0xE2, CHR 0x82, CHR 0xAC]),
          (0x1F600, [CHR 0xF0, CHR 0x9F, CHR 0x98, CHR 0x80])]"
    by code_simp
  have r: "concat (map escapeRune ?rs)
       = ''A|'' @ sq @ ''|n|0x0001|0x0020|0x00c3|0x00e2''
         @ [CHR 0xF0, CHR 0x9F, CHR 0x98, CHR 0x80]"
    by code_simp
  from escape_chars [of ?s ?rs] v
  have 1: "escape ?s = concat (map escapeChar (Chars ?s))"
    and 2: "Chars (concat (map EncodeRune ?rs)) = map (\<lambda>r. (r, EncodeRune r)) ?rs"
    and 3: "escape (concat (map EncodeRune ?rs)) = concat (map escapeRune ?rs)"
    by blast+
  from 1 have e1: "escape ?s = ''A|0x00ff|[b|]|0x00e2|0x0082|n''"
    unfolding c ec .
  from 2 have e2: "Chars ?t
       = [(0x41, ''A''), (0x27, sq), (0x0A, nl), (0x01, [CHR 0x01]), (0x20, '' ''),
          (0xE9, [CHR 0xC3, CHR 0xA9]), (0x20AC, [CHR 0xE2, CHR 0x82, CHR 0xAC]),
          (0x1F600, [CHR 0xF0, CHR 0x9F, CHR 0x98, CHR 0x80])]"
    unfolding e m .
  from 3 have e3: "escape ?t
       = ''A|'' @ sq @ ''|n|0x0001|0x0020|0x00c3|0x00e2''
         @ [CHR 0xF0, CHR 0x9F, CHR 0x98, CHR 0x80]"
    unfolding e r .
  from c e1 l e e2 e3 show ?thesis by (intro conjI)
qed

text \<open>
  The claim as stated fails: the character U+10000 is at least 0x80 and is left as it
  is.
\<close>

theorem escape_chars_counterexample:
  "validRune 0x10000
   \<and> EncodeRune 0x10000 = [CHR 0xF0, CHR 0x90, CHR 0x80, CHR 0x80]
   \<and> escape [CHR 0xF0, CHR 0x90, CHR 0x80, CHR 0x80] = [CHR 0xF0, CHR 0x90, CHR 0x80, CHR 0x80]
   \<and> escape [CHR 0xF0, CHR 0x90, CHR 0x80, CHR 0x80] \<noteq> ''|0x00f0''"
  by code_simp

end
